theory Spec2Isabelle
  imports Complex_Main
begin

chapter \<open>Narrative watchlists: the fetch, aggregation and output pipeline\<close>

text \<open>
  A shallow embedding of \<^verbatim>\<open>fetch_narrative_watchlists.py\<close>. The program asks a
  market-data API for narrative categories, the coins of each category and the tickers of
  an exchange, groups the tickers by category, derives an index expression for each
  category and writes watchlist files.

  The definitions come first, one section for each part of the source: the rate limiter,
  the request wrapper, the fetchers, the parser of the \<^verbatim>\<open>Link\<close> header, the
  aggregation step of \<^verbatim>\<open>main\<close>, the index strings and the writer. Effects are
  explicit: the clock, the HTTP responses still to come and the requests and sleeps
  performed are fields of a world that every effectful function takes and returns; an
  exception is the left summand of a result. The properties C1 to C10 of the program
  follow, each with the lemmas it needs.
\<close>

section \<open>Python values and containers used by the program\<close>

text \<open>
  The program is a single Python module, \<^verbatim>\<open>fetch_narrative_watchlists.py\<close>.
  Exceptions are values of \<open>py_error\<close>; a function that may raise returns
  \<open>py_error + 'a\<close> with \<open>Inl\<close> for the exception.
\<close>

datatype py_error = IndexError | KeyError | ValueError | HTTPError nat

text \<open>
  A \<^verbatim>\<open>dict\<close> or \<^verbatim>\<open>OrderedDict\<close> is an association list in insertion order.
  Assigning to a key that is present replaces the value and keeps the key's position;
  assigning to a new key appends it.
\<close>

type_synonym ('k, 'v) odict = "('k \<times> 'v) list"

fun odict_set :: "'k \<Rightarrow> 'v \<Rightarrow> ('k, 'v) odict \<Rightarrow> ('k, 'v) odict" where
  "odict_set k v [] = [(k, v)]"
| "odict_set k v ((k', v') # d) =
     (if k' = k then (k', v) # d else (k', v') # odict_set k v d)"

text \<open>\<^verbatim>\<open>d[k]\<close> raises \<^verbatim>\<open>KeyError\<close> on a missing key.\<close>

definition odict_get :: "('k, 'v) odict \<Rightarrow> 'k \<Rightarrow> py_error + 'v" where
  "odict_get d k = (case map_of d k of None \<Rightarrow> Inl KeyError | Some v \<Rightarrow> Inr v)"

text \<open>\<^verbatim>\<open>str(n)\<close> of a non-negative integer: its decimal digits.\<close>

definition digit_char :: "nat \<Rightarrow> char" where
  "digit_char d = ''0123456789'' ! d"

fun str_nat :: "nat \<Rightarrow> string" where
  "str_nat n = (if n < 10 then [digit_char n] else str_nat (n div 10) @ [digit_char (n mod 10)])"

text \<open>\<^verbatim>\<open>sep.join(parts)\<close>.\<close>

fun py_join :: "string \<Rightarrow> string list \<Rightarrow> string" where
  "py_join sep [] = []"
| "py_join sep [x] = x"
| "py_join sep (x # y # ys) = x @ sep @ py_join sep (y # ys)"

text \<open>
  \<^verbatim>\<open>s.split(sep)\<close> for a one-character separator: a string with \<open>n\<close> separators
  gives \<open>n + 1\<close> pieces, and the empty string gives one empty piece.
\<close>

fun split_on :: "char \<Rightarrow> string \<Rightarrow> string list" where
  "split_on sep [] = [[]]"
| "split_on sep (c # cs) =
     (if c = sep then [] # split_on sep cs
      else (case split_on sep cs of [] \<Rightarrow> [[c]] | p # ps \<Rightarrow> (c # p) # ps))"

text \<open>
  \<^verbatim>\<open>xs[:n]\<close> for a Python integer \<open>n\<close>: a negative bound counts from the end.
\<close>

definition py_slice_to :: "int \<Rightarrow> 'a list \<Rightarrow> 'a list" where
  "py_slice_to n xs = (if 0 \<le> n then take (nat n) xs else take (length xs - nat (- n)) xs)"

section \<open>The clock, float arithmetic and the rate limiter\<close>

text \<open>
  The world holds the monotonic clock, the HTTP answers still to come (one per
  \<^verbatim>\<open>requests.get\<close> attempt, in order) and the trace of the effects performed so
  far. When the answers run out, the recorded run ends there: a call that needs one more
  has not returned, which is the value \<open>None\<close>.

  A time is a real number of seconds that the float type can hold. The platform gives
  \<open>fl\<close>, the rounding that every float addition and subtraction applies to its exact
  result, and \<open>tick\<close>: between two readings of the clock the environment lets
  \<open>tick k\<close> seconds pass, where \<open>k\<close> counts the readings. A sleep of \<open>d\<close> seconds
  adds \<open>d\<close> on top of that, so a sleep lasts at least as long as asked.
\<close>

datatype pyval = PyStr string | PyInt int

type_synonym params = "(string, pyval) odict"

datatype sleeper = Limiter | Backoff

datatype effect = Slept sleeper real | Got string "params option"

type_synonym headers = "(string, string) odict"

text \<open>
  The answer to one attempt of \<^verbatim>\<open>requests.get\<close>: a response with its status code,
  its body (the parsed JSON, or \<open>None\<close> for a body that is not JSON) and its headers;
  or no response at all (connection failure, timeout).
\<close>

datatype 'j http_outcome =
    Response nat "'j option" headers
  | NoResponse

record 'j world =
  now :: real
  reads :: nat
  script :: "'j http_outcome list"
  trace :: "effect list"

record platform =
  fl :: "real \<Rightarrow> real"
  tick :: "nat \<Rightarrow> real"



text \<open>\<^verbatim>\<open>time.monotonic()\<close>.\<close>

definition monotonic :: "platform \<Rightarrow> 'j world \<Rightarrow> real \<times> 'j world" where
  "monotonic pf w =
     (now w + tick pf (reads w),
      w\<lparr>now := now w + tick pf (reads w), reads := Suc (reads w)\<rparr>)"

text \<open>\<^verbatim>\<open>time.sleep(d)\<close>: a negative length raises \<^verbatim>\<open>ValueError\<close>.\<close>

definition py_sleep :: "sleeper \<Rightarrow> real \<Rightarrow> 'j world \<Rightarrow> py_error + 'j world" where
  "py_sleep who d w =
     (if d < 0 then Inl ValueError
      else Inr (w\<lparr>now := now w + d, trace := trace w @ [Slept who d]\<rparr>))"

record rate_limiter =
  requests :: "real list"
  max_requests :: int
  period :: real

text \<open>\<^verbatim>\<open>RateLimiter.__init__\<close>.\<close>

definition RateLimiter :: "int \<Rightarrow> real \<Rightarrow> rate_limiter" where
  "RateLimiter m p = \<lparr>requests = [], max_requests = m, period = p\<rparr>"

text \<open>
  \<^verbatim>\<open>RateLimiter.wait\<close>. The \<^verbatim>\<open>while\<close> loop pops from the left of the deque while
  the oldest entry is less than the float \<^verbatim>\<open>current_time - self.period\<close>, which is
  \<open>dropWhile\<close>. \<^verbatim>\<open>self.requests[0]\<close> on an empty deque raises \<^verbatim>\<open>IndexError\<close>. The
  sleep length \<^verbatim>\<open>self.requests[0] + self.period - current_time\<close> is two float
  operations, from left to right.
\<close>

definition wait ::
  "platform \<Rightarrow> rate_limiter \<Rightarrow> 'j world \<Rightarrow> py_error + (rate_limiter \<times> 'j world)" where
  "wait pf rl w =
     (let (current_time, w1) = monotonic pf w;
          reqs = dropWhile (\<lambda>r. r < fl pf (current_time - period rl)) (requests rl)
      in if max_requests rl \<le> int (length reqs) then
           (case reqs of
              [] \<Rightarrow> Inl IndexError
            | oldest # _ \<Rightarrow>
                (case py_sleep Limiter (fl pf (fl pf (oldest + period rl) - current_time)) w1 of
                   Inl e \<Rightarrow> Inl e
                 | Inr w2 \<Rightarrow>
                     (let (t, w3) = monotonic pf w2
                      in Inr (rl\<lparr>requests := reqs @ [t]\<rparr>, w3))))
         else
           (let (t, w3) = monotonic pf w1
            in Inr (rl\<lparr>requests := reqs @ [t]\<rparr>, w3)))"



section \<open>The HTTP request wrapper\<close>

text \<open>
  \<^verbatim>\<open>response.raise_for_status()\<close> raises \<^verbatim>\<open>HTTPError\<close> for the status codes 400
  to 599 and for no other. \<^verbatim>\<open>response.json()\<close> on a body that is not JSON raises
  the library's \<^verbatim>\<open>JSONDecodeError\<close>, which is a \<^verbatim>\<open>RequestException\<close> (requests
  2.27 and later), as a failed connection is.

  \<^verbatim>\<open>safe_request\<close> returns the pair \<^verbatim>\<open>(body, headers)\<close> or \<^verbatim>\<open>(None, None)\<close>, or
  raises. On status 429 it sleeps 10 seconds and calls itself again, without a bound:
  the recursion follows the answers, and ends with \<open>None\<close> when they run out.
  (The interpreter's recursion limit, which ends about a thousand answers with status 429
  in a row with \<^verbatim>\<open>RecursionError\<close>, is left out.)
\<close>

definition raises_for_status :: "nat \<Rightarrow> bool" where
  "raises_for_status code \<longleftrightarrow> 400 \<le> code \<and> code < 600"

type_synonym 'j reply = "'j option \<times> headers option"

function safe_request ::
  "platform \<Rightarrow> string \<Rightarrow> params option \<Rightarrow> rate_limiter \<Rightarrow> 'j world
     \<Rightarrow> (py_error + ('j reply \<times> rate_limiter \<times> 'j world)) option" where
  "safe_request pf url params rl w =
     (case wait pf rl w of
        Inl e \<Rightarrow> Some (Inl e)
      | Inr (rl1, w1) \<Rightarrow>
          (case script w1 of
             [] \<Rightarrow> None
           | outcome # rest \<Rightarrow>
               (let w2 = w1\<lparr>script := rest, trace := trace w1 @ [Got url params]\<rparr>
                in case outcome of
                     NoResponse \<Rightarrow> Some (Inr ((None, None), rl1, w2))
                   | Response code body hdrs \<Rightarrow>
                       if raises_for_status code then
                         (if code = 429 then
                            (case py_sleep Backoff 10 w2 of
                               Inl e \<Rightarrow> Some (Inl e)
                             | Inr w3 \<Rightarrow> safe_request pf url params rl1 w3)
                          else Some (Inl (HTTPError code)))
                       else
                         (case body of
                            None \<Rightarrow> Some (Inr ((None, None), rl1, w2))
                          | Some j \<Rightarrow> Some (Inr ((Some j, Some hdrs), rl1, w2))))))"
  by pat_completeness auto
termination
  apply (relation "measure (\<lambda>(pf, url, params, rl, w). length (script w))")
   apply simp
  apply (auto simp: wait_def monotonic_def py_sleep_def Let_def
              split: if_splits list.splits sum.splits prod.splits)
  done

section \<open>The fetchers\<close>

record category =
  cat_id :: string
  cat_name :: string

record market_row =
  row_id :: string

record ticker =
  coin_id :: string
  base :: string
  target :: string

definition BASE_URL :: string where
  "BASE_URL = ''https://api.coingecko.com/api/v3''"

text \<open>
  \<^verbatim>\<open>fetch_categories\<close>: one request; an empty or missing body gives the empty list.
\<close>

definition fetch_categories ::
  "platform \<Rightarrow> rate_limiter \<Rightarrow> int \<Rightarrow> category list world
     \<Rightarrow> (py_error + (category list \<times> rate_limiter \<times> category list world)) option" where
  "fetch_categories pf rl limit w =
     (case safe_request pf (BASE_URL @ ''/coins/categories?order=market_cap_desc'') None rl w of
        None \<Rightarrow> None
      | Some (Inl e) \<Rightarrow> Some (Inl e)
      | Some (Inr ((categories, _), rl1, w1)) \<Rightarrow>
          (case categories of
             None \<Rightarrow> Some (Inr ([], rl1, w1))
           | Some cs \<Rightarrow>
               if cs \<noteq> [] then Some (Inr (py_slice_to limit cs, rl1, w1))
               else Some (Inr ([], rl1, w1))))"

definition markets_params :: "string \<Rightarrow> int \<Rightarrow> params" where
  "markets_params category_id page =
     [(''vs_currency'', PyStr ''usd''), (''category'', PyStr category_id),
      (''order'', PyStr ''market_cap_desc''), (''per_page'', PyInt 250), (''page'', PyInt page)]"

text \<open>
  The \<^verbatim>\<open>while\<close> loop of \<^verbatim>\<open>fetch_coins_by_category\<close>, with its variables
  \<^verbatim>\<open>has_more_data\<close>, \<^verbatim>\<open>params['page']\<close> and \<^verbatim>\<open>coins\<close>. A body that is
  \<^verbatim>\<open>None\<close> or an empty list is falsy and ends the loop.
\<close>

function fetch_coins_loop ::
  "platform \<Rightarrow> string \<Rightarrow> int \<Rightarrow> bool \<Rightarrow> int \<Rightarrow> string list \<Rightarrow> rate_limiter
     \<Rightarrow> market_row list world
     \<Rightarrow> (py_error + (string list \<times> rate_limiter \<times> market_row list world)) option" where
  "fetch_coins_loop pf category_id max_coins has_more_data page coins rl w =
     (if has_more_data \<and> int (length coins) < max_coins then
        (case safe_request pf (BASE_URL @ ''/coins/markets'')
                (Some (markets_params category_id page)) rl w of
           None \<Rightarrow> None
         | Some (Inl e) \<Rightarrow> Some (Inl e)
         | Some (Inr ((response, _), rl1, w1)) \<Rightarrow>
             (case response of
                None \<Rightarrow> fetch_coins_loop pf category_id max_coins False page coins rl1 w1
              | Some rows \<Rightarrow>
                  if rows \<noteq> [] then
                    (let new_coins = map row_id rows;
                         coins1 = coins @ take (nat (max_coins - int (length coins))) new_coins
                     in if max_coins \<le> int (length coins1) \<or> int (length new_coins) < 250
                        then fetch_coins_loop pf category_id max_coins False page coins1 rl1 w1
                        else fetch_coins_loop pf category_id max_coins True (page + 1) coins1 rl1 w1)
                  else fetch_coins_loop pf category_id max_coins False page coins rl1 w1))
      else Some (Inr (coins, rl, w)))"
  by pat_completeness auto
termination
  by (relation "measure (\<lambda>(pf, category_id, max_coins, has_more_data, page, coins, rl, w).
         if has_more_data then 2 * nat (max_coins - int (length coins)) + 1 else 0)")
     (auto simp: Let_def)

definition fetch_coins_by_category ::
  "platform \<Rightarrow> string \<Rightarrow> string \<Rightarrow> rate_limiter \<Rightarrow> int \<Rightarrow> market_row list world
     \<Rightarrow> (py_error + (string list \<times> rate_limiter \<times> market_row list world)) option" where
  "fetch_coins_by_category pf category_id category_name rl max_coins w =
     fetch_coins_loop pf category_id max_coins True 1 [] rl w"

section \<open>Parsing the Link header\<close>

text \<open>
  The pattern of \<^verbatim>\<open>parse_link_header\<close> is
  \<^verbatim>\<open><([^>]+)>;\s*rel="([^"]+)"\<close>: literal characters, two capturing groups that
  are a greedy run of one or more characters of a class, and a greedy run of zero or more
  whitespace characters. A pattern is a list of such items. Matching is greedy with
  backtracking, as in Python's \<^verbatim>\<open>re\<close>: a run first takes the longest stretch of
  characters in its class and gives characters back one at a time while the rest of the
  pattern fails to match.

  Header values reach the program decoded as Latin-1, so a character is a code point below
  256, and \<^verbatim>\<open>\s\<close> matches the code points for which \<^verbatim>\<open>str.isspace\<close> holds there.
\<close>

datatype rx_item =
    Lit char
  | Group_Plus "char \<Rightarrow> bool"
  | Star "char \<Rightarrow> bool"

fun first_some :: "'a option list \<Rightarrow> 'a option" where
  "first_some [] = None"
| "first_some (None # xs) = first_some xs"
| "first_some (Some x # xs) = Some x"

text \<open>
  \<open>rx_match items s\<close> matches the pattern at the start of \<open>s\<close> and returns the captured
  groups in order.
\<close>

fun rx_match :: "rx_item list \<Rightarrow> string \<Rightarrow> string list option" where
  "rx_match [] s = Some []"
| "rx_match (Lit c # items) s =
     (case s of [] \<Rightarrow> None | x # xs \<Rightarrow> if x = c then rx_match items xs else None)"
| "rx_match (Group_Plus cls # items) s =
     first_some (map (\<lambda>k. map_option (\<lambda>groups. take k s # groups) (rx_match items (drop k s)))
                     (rev [1..<Suc (length (takeWhile cls s))]))"
| "rx_match (Star cls # items) s =
     first_some (map (\<lambda>k. rx_match items (drop k s))
                     (rev [0..<Suc (length (takeWhile cls s))]))"

text \<open>\<^verbatim>\<open>pattern.search\<close>: the match at the leftmost position that has one.\<close>

fun rx_search :: "rx_item list \<Rightarrow> string \<Rightarrow> string list option" where
  "rx_search items [] = rx_match items []"
| "rx_search items (c # cs) =
     (case rx_match items (c # cs) of Some groups \<Rightarrow> Some groups | None \<Rightarrow> rx_search items cs)"

definition is_space :: "char \<Rightarrow> bool" where
  "is_space c = ((of_char c :: nat) \<in> set [9, 10, 11, 12, 13, 28, 29, 30, 31, 32, 133, 160])"

definition link_pattern :: "rx_item list" where
  "link_pattern =
     [Lit CHR ''<'', Group_Plus (\<lambda>c. c \<noteq> CHR ''>''), Lit CHR ''>'', Lit CHR '';'',
      Star is_space,
      Lit CHR ''r'', Lit CHR ''e'', Lit CHR ''l'', Lit CHR ''='', Lit (CHR 0x22),
      Group_Plus (\<lambda>c. c \<noteq> CHR 0x22), Lit (CHR 0x22)]"

text \<open>
  \<^verbatim>\<open>parse_link_header\<close>: \<^verbatim>\<open>match.group(1)\<close> is the URL and \<^verbatim>\<open>match.group(2)\<close>
  the relation name; a piece with no match leaves the dictionary as it is.
\<close>

definition parse_link_header :: "string \<Rightarrow> (string, string) odict" where
  "parse_link_header link_header =
     foldl (\<lambda>links link.
              case rx_search link_pattern link of
                Some [url, rel] \<Rightarrow> odict_set rel url links
              | _ \<Rightarrow> links)
           [] (split_on CHR '','' link_header)"

section \<open>The ticker fetcher\<close>

record ticker_page =
  tickers :: "ticker list"

text \<open>
  \<^verbatim>\<open>response.headers\<close> is the library's case-insensitive dictionary:
  \<^verbatim>\<open>headers.get(name, default)\<close> compares the lower-cased names. Header names and
  values are Latin-1 strings, so \<^verbatim>\<open>str.lower\<close> moves the capital letters, which are
  the code points 65 to 90 and 192 to 222 without 215, up by 32.
\<close>

definition lower_char :: "char \<Rightarrow> char" where
  "lower_char c =
     (let n = (of_char c :: nat)
      in if (65 \<le> n \<and> n \<le> 90) \<or> (192 \<le> n \<and> n \<le> 222 \<and> n \<noteq> 215)
         then char_of (n + 32) else c)"

definition header_get :: "headers \<Rightarrow> string \<Rightarrow> string \<Rightarrow> string" where
  "header_get hs name dflt =
     (case find (\<lambda>(k, v). map lower_char k = map lower_char name) hs of
        None \<Rightarrow> dflt
      | Some (k, v) \<Rightarrow> v)"

text \<open>
  The \<^verbatim>\<open>while True\<close> loop of \<^verbatim>\<open>fetch_tickers_for_exchange\<close>. It runs as long as
  the responses carry a \<^verbatim>\<open>next\<close> link, so it need not end. The function
  \<^verbatim>\<open>update_request_url\<close> only composes \<^verbatim>\<open>urllib.parse\<close> calls and is a parameter
  here. The body of a response is a JSON object with the key \<^verbatim>\<open>tickers\<close>, which is
  truthy.
\<close>

partial_function (option) fetch_tickers_loop ::
  "platform \<Rightarrow> (string \<Rightarrow> string \<times> params) \<Rightarrow> string \<Rightarrow> string \<Rightarrow> params
     \<Rightarrow> ticker list \<Rightarrow> rate_limiter \<Rightarrow> ticker_page world
     \<Rightarrow> (py_error + (ticker list \<times> rate_limiter \<times> ticker_page world)) option" where
  "fetch_tickers_loop pf update_request_url target_symbol url params collected rl w =
     (case safe_request pf url (Some params) rl w of
        None \<Rightarrow> None
      | Some (Inl e) \<Rightarrow> Some (Inl e)
      | Some (Inr ((response, hdrs), rl1, w1)) \<Rightarrow>
          (case (response, hdrs) of
             (Some body, Some hs) \<Rightarrow>
               (let collected1 = collected @ filter (\<lambda>t. target t = target_symbol) (tickers body);
                    links = parse_link_header (header_get hs ''Link'' '''')
                in case map_of links ''next'' of
                     Some next_url \<Rightarrow>
                       (case update_request_url next_url of
                          (url1, params1) \<Rightarrow>
                            fetch_tickers_loop pf update_request_url target_symbol url1 params1
                              collected1 rl1 w1)
                   | None \<Rightarrow> Some (Inr (collected1, rl1, w1)))
           | _ \<Rightarrow> Some (Inr (collected, rl1, w1))))"

definition fetch_tickers_for_exchange ::
  "platform \<Rightarrow> (string \<Rightarrow> string \<times> params) \<Rightarrow> string \<Rightarrow> string \<Rightarrow> string \<Rightarrow> string
     \<Rightarrow> rate_limiter \<Rightarrow> ticker_page world
     \<Rightarrow> (py_error + (ticker list \<times> rate_limiter \<times> ticker_page world)) option" where
  "fetch_tickers_for_exchange pf update_request_url exchange_id exchange_name target_id
       target_symbol rl w =
     fetch_tickers_loop pf update_request_url target_symbol
       (BASE_URL @ ''/exchanges/'' @ exchange_id @ ''/tickers'')
       [(''coin_ids'', PyStr target_id), (''page'', PyInt 1)] [] rl w"

section \<open>Aggregation, index strings and the watchlist writer\<close>

text \<open>
  The aggregation step of \<^verbatim>\<open>main\<close>: \<^verbatim>\<open>categorized_tickers\<close> starts with an empty
  list under every category name, then each category appends, for each of its coin ids
  with an entry in \<^verbatim>\<open>ticker_dict\<close>, that entry to the list under its name.
\<close>

definition init_categorized :: "category list \<Rightarrow> (string, string list) odict" where
  "init_categorized categories = foldl (\<lambda>d cat. odict_set (cat_name cat) [] d) [] categories"

fun append_tickers ::
  "(string \<rightharpoonup> string) \<Rightarrow> string \<Rightarrow> string list \<Rightarrow> (string, string list) odict
     \<Rightarrow> py_error + (string, string list) odict" where
  "append_tickers ticker_dict name [] ct = Inr ct"
| "append_tickers ticker_dict name (coin # coins) ct =
     (case ticker_dict coin of
        None \<Rightarrow> append_tickers ticker_dict name coins ct
      | Some t \<Rightarrow>
          (case odict_get ct name of
             Inl e \<Rightarrow> Inl e
           | Inr ts \<Rightarrow> append_tickers ticker_dict name coins (odict_set name (ts @ [t]) ct)))"

fun categorize_loop ::
  "(string, string list) odict \<Rightarrow> (string \<rightharpoonup> string) \<Rightarrow> category list
     \<Rightarrow> (string, string list) odict \<Rightarrow> py_error + (string, string list) odict" where
  "categorize_loop category_coins ticker_dict [] ct = Inr ct"
| "categorize_loop category_coins ticker_dict (cat # cats) ct =
     (case odict_get category_coins (cat_id cat) of
        Inl e \<Rightarrow> Inl e
      | Inr coins \<Rightarrow>
          (case append_tickers ticker_dict (cat_name cat) coins ct of
             Inl e \<Rightarrow> Inl e
           | Inr ct1 \<Rightarrow> categorize_loop category_coins ticker_dict cats ct1))"

definition categorize ::
  "category list \<Rightarrow> (string, string list) odict \<Rightarrow> (string \<rightharpoonup> string)
     \<Rightarrow> py_error + (string, string list) odict" where
  "categorize categories category_coins ticker_dict =
     categorize_loop category_coins ticker_dict categories (init_categorized categories)"

text \<open>
  \<^verbatim>\<open>create_tradingview_index_string\<close>: a dictionary comprehension over the items of
  its argument.
\<close>

definition index_string :: "string list \<Rightarrow> string" where
  "index_string tks =
     ''('' @ py_join ''*'' (take 10 tks) @ '')^(1/'' @ str_nat (length (take 10 tks)) @ '')''"

definition create_tradingview_index_string ::
  "(string, string list) odict \<Rightarrow> (string, string) odict" where
  "create_tradingview_index_string categorized_tickers =
     foldl (\<lambda>d (category, tks). odict_set category (index_string tks) d) [] categorized_tickers"

text \<open>
  The file system: the content of every file, and the directories that exist. Failures
  of the operating system (permissions, a full disk) are outside this model.
\<close>

record filesystem =
  files :: "string \<rightharpoonup> string"
  dirs :: "string set"

text \<open>\<^verbatim>\<open>os.path.dirname\<close> on POSIX paths.\<close>

definition dirname :: "string \<Rightarrow> string" where
  "dirname p =
     (let head = rev (dropWhile (\<lambda>c. c \<noteq> CHR ''/'') (rev p))
      in if head \<noteq> [] \<and> filter (\<lambda>c. c \<noteq> CHR ''/'') head \<noteq> []
         then rev (dropWhile (\<lambda>c. c = CHR ''/'') (rev head))
         else head)"

definition path_exists :: "filesystem \<Rightarrow> string \<Rightarrow> bool" where
  "path_exists fs p = (p \<in> dirs fs \<or> files fs p \<noteq> None)"

text \<open>
  The values of the dictionary the writer receives: a list of tickers, or an index
  string. Formatting a value with an f-string gives the string itself, or Python's
  rendering of the list (a parameter, \<open>list_repr\<close>); iterating over a value gives the
  tickers, or the characters of the string.
\<close>

datatype watch_data = TickerList "string list" | IndexString string

fun py_format :: "(string list \<Rightarrow> string) \<Rightarrow> watch_data \<Rightarrow> string" where
  "py_format list_repr (IndexString s) = s"
| "py_format list_repr (TickerList ts) = list_repr ts"

fun py_iter :: "watch_data \<Rightarrow> string list" where
  "py_iter (TickerList ts) = ts"
| "py_iter (IndexString s) = map (\<lambda>c. [c]) s"

text \<open>
  \<^verbatim>\<open>save_to_tradingview_watchlist\<close>. Opening with mode \<^verbatim>\<open>'w'\<close> starts from an
  empty file; every \<^verbatim>\<open>file.write\<close> appends to it.
\<close>

definition write_category ::
  "(string list \<Rightarrow> string) \<Rightarrow> bool \<Rightarrow> string \<Rightarrow> string \<times> watch_data \<Rightarrow> string" where
  "write_category list_repr is_index file entry =
     (case entry of
        (category_name, data) \<Rightarrow>
          (let file1 = file @ ''###'' @ category_name @ ''\<newline>''
           in if is_index then file1 @ py_format list_repr data @ ''\<newline>\<newline>''
              else foldl (\<lambda>f tk. f @ tk @ ''\<newline>'') file1 (py_iter data)))"

text \<open>
  \<^verbatim>\<open>os.makedirs\<close> creates the directory and every missing directory above it: the
  ancestors of a path are its prefixes before a separator, without trailing separators.
\<close>

fun ancestors :: "string \<Rightarrow> string \<Rightarrow> string list" where
  "ancestors pre [] = []"
| "ancestors pre (c # cs) =
     (let above = rev (dropWhile (\<lambda>x. x = CHR ''/'') (rev pre))
      in if c = CHR ''/'' \<and> above \<noteq> [] then above # ancestors (pre @ [c]) cs
         else ancestors (pre @ [c]) cs)"

definition makedirs :: "string \<Rightarrow> filesystem \<Rightarrow> filesystem" where
  "makedirs directory fs = fs\<lparr>dirs := dirs fs \<union> set (ancestors [] directory) \<union> {directory}\<rparr>"

definition save_to_tradingview_watchlist ::
  "(string list \<Rightarrow> string) \<Rightarrow> string \<Rightarrow> (string, watch_data) odict \<Rightarrow> bool \<Rightarrow> filesystem
     \<Rightarrow> filesystem" where
  "save_to_tradingview_watchlist list_repr filename categorized_data is_index fs =
     (let directory = dirname filename;
          fs1 = (if \<not> path_exists fs directory \<and> directory \<noteq> ''''
                 then makedirs directory fs else fs);
          written = foldl (write_category list_repr is_index) '''' categorized_data
      in fs1\<lparr>files := (files fs1)(filename \<mapsto> written)\<rparr>)"

text \<open>
  Reading a file back line by line in text mode, each line without its terminator. With
  Python's universal newlines a line ends at a line feed, at a carriage return, or at a
  carriage return followed by a line feed.
\<close>

fun read_lines :: "string \<Rightarrow> string \<Rightarrow> string list" where
  "read_lines line [] = (if line = [] then [] else [line])"
| "read_lines line [c] =
     (if c = CHR ''\<newline>'' \<or> c = CHR 0x0D then [line] else [line @ [c]])"
| "read_lines line (c # d # cs) =
     (if c = CHR 0x0D \<and> d = CHR ''\<newline>'' then line # read_lines [] cs
      else if c = CHR ''\<newline>'' \<or> c = CHR 0x0D then line # read_lines [] (d # cs)
      else read_lines (line @ [c]) (d # cs))"

definition readlines :: "filesystem \<Rightarrow> string \<Rightarrow> string list option" where
  "readlines fs filename = map_option (read_lines []) (files fs filename)"

text \<open>The strings without a line feed and without a carriage return.\<close>

definition no_line_break :: "string \<Rightarrow> bool" where
  "no_line_break s \<longleftrightarrow> CHR ''\<newline>'' \<notin> set s \<and> CHR 0x0D \<notin> set s"

section \<open>Auxiliary notions for the proofs\<close>

text \<open>Appending \<open>extra\<close> to the list stored under \<open>name\<close>.\<close>

definition extend_at :: "'k \<Rightarrow> 'a list \<Rightarrow> ('k, 'a list) odict \<Rightarrow> ('k, 'a list) odict" where
  "extend_at name extra ct = map (\<lambda>(k, ts). if k = name then (k, ts @ extra) else (k, ts)) ct"

text \<open>
  The effects of the request wrapper itself in a trace: everything but the sleeps of the
  rate limiter.
\<close>

fun is_limiter_sleep :: "effect \<Rightarrow> bool" where
  "is_limiter_sleep (Slept Limiter d) = True"
| "is_limiter_sleep e = False"

definition wrapper_effects :: "effect list \<Rightarrow> effect list" where
  "wrapper_effects tr = filter (\<lambda>e. \<not> is_limiter_sleep e) tr"

text \<open>
  A platform on which the rate limiter never asks for a sleep of negative length: the
  sleep it computes for an entry it has not popped is not negative. Exact arithmetic is
  such a platform.
\<close>

definition no_negative_sleep :: "platform \<Rightarrow> bool" where
  "no_negative_sleep pf \<longleftrightarrow>
     (\<forall>q c p. \<not> q < fl pf (c - p) \<longrightarrow> \<not> fl pf (fl pf (q + p) - c) < 0)"



text \<open>Answers with status 429, and what \<^verbatim>\<open>safe_request\<close> makes of any other answer.\<close>

fun is_retry :: "'j http_outcome \<Rightarrow> bool" where
  "is_retry (Response code body hdrs) = (code = 429)"
| "is_retry NoResponse = False"

definition throttled :: "('j option \<times> headers) list \<Rightarrow> 'j http_outcome list" where
  "throttled bs = map (\<lambda>(body, hdrs). Response 429 body hdrs) bs"

fun outcome_reply :: "'j http_outcome \<Rightarrow> py_error + 'j reply" where
  "outcome_reply (Response code body hdrs) =
     (if raises_for_status code then Inl (HTTPError code)
      else (case body of None \<Rightarrow> Inr (None, None) | Some j \<Rightarrow> Inr (Some j, Some hdrs)))"
| "outcome_reply NoResponse = Inr (None, None)"

text \<open>
  The rate limiter admits the attempts that are answered by \<open>outs\<close>: the call of
  \<^verbatim>\<open>wait\<close> before each of them returns. After an answer with status 429 the
  wrapper sleeps 10 seconds before the next call of \<^verbatim>\<open>wait\<close>.
\<close>

fun admits :: "platform \<Rightarrow> 'j http_outcome list \<Rightarrow> rate_limiter \<Rightarrow> 'j world \<Rightarrow> bool" where
  "admits pf [] rl w = True"
| "admits pf (out # outs) rl w =
     (case wait pf rl w of
        Inl e \<Rightarrow> False
      | Inr (rl1, w1) \<Rightarrow>
          admits pf outs rl1 (if is_retry out then w1\<lparr>now := now w1 + 10\<rparr> else w1))"

text \<open>
  The answers on which \<^verbatim>\<open>safe_request\<close> returns \<^verbatim>\<open>(None, None)\<close>: no response
  at all, or a response whose status is no error and whose body is not JSON.
\<close>

fun no_payload :: "'j http_outcome \<Rightarrow> bool" where
  "no_payload NoResponse = True"
| "no_payload (Response code body hdrs) = (body = None \<and> \<not> raises_for_status code)"

text \<open>
  The effects of one call of \<^verbatim>\<open>safe_request\<close> that is answered with status 429
  \<open>k\<close> times before its last answer.
\<close>

definition attempt_effects :: "string \<Rightarrow> params option \<Rightarrow> nat \<Rightarrow> effect list" where
  "attempt_effects url params k =
     concat (replicate k [Got url params, Slept Backoff 10]) @ [Got url params]"

text \<open>
  A call of \<^verbatim>\<open>safe_request\<close> as the server sees it: the answers with status 429, then
  the last answer. The rows of a page of the markets endpoint are the body of an answer
  that is not an error; any other answer has none.
\<close>

fun answers :: "('j option \<times> headers) list \<times> 'j http_outcome \<Rightarrow> 'j http_outcome list" where
  "answers (bs, out) = throttled bs @ [out]"

fun is_error_status :: "'j http_outcome \<Rightarrow> bool" where
  "is_error_status (Response code body hdrs) = raises_for_status code"
| "is_error_status NoResponse = False"

fun rows_of :: "market_row list http_outcome \<Rightarrow> market_row list" where
  "rows_of (Response code body hdrs) =
     (if raises_for_status code then [] else (case body of None \<Rightarrow> [] | Some rows \<Rightarrow> rows))"
| "rows_of NoResponse = []"

definition page_ids :: "market_row list http_outcome list \<Rightarrow> string list" where
  "page_ids pages = concat (map (\<lambda>p. map row_id (rows_of p)) pages)"

text \<open>
  The effects of the requests for consecutive pages of the markets endpoint, from
  \<open>page\<close> on, where \<open>ks\<close> gives for each page how often it was answered with 429.
\<close>

fun page_effects :: "string \<Rightarrow> int \<Rightarrow> nat list \<Rightarrow> effect list" where
  "page_effects category_id page [] = []"
| "page_effects category_id page (k # ks) =
     attempt_effects (BASE_URL @ ''/coins/markets'') (Some (markets_params category_id page)) k
       @ page_effects category_id (page + 1) ks"

text \<open>
  The pages of the ticker endpoint: the answers of a list of pages, the tickers they
  add, and the \<^verbatim>\<open>next\<close> link in the headers of a page.
\<close>

definition next_link :: "headers \<Rightarrow> string option" where
  "next_link hs = map_of (parse_link_header (header_get hs ''Link'' '''')) ''next''"

definition ticker_answers :: "(nat \<times> ticker_page \<times> headers) list \<Rightarrow> ticker_page http_outcome list" where
  "ticker_answers pages = map (\<lambda>(code, body, hs). Response code (Some body) hs) pages"

definition kept_tickers :: "string \<Rightarrow> (nat \<times> ticker_page \<times> headers) list \<Rightarrow> ticker list" where
  "kept_tickers target_symbol pages =
     concat (map (\<lambda>(code, body, hs). filter (\<lambda>t. target t = target_symbol) (tickers body)) pages)"

text \<open>One turn of the loop of \<^verbatim>\<open>parse_link_header\<close>.\<close>

definition link_step :: "(string, string) odict \<Rightarrow> string \<Rightarrow> (string, string) odict" where
  "link_step links link =
     (case rx_search link_pattern link of
        Some [url, rel] \<Rightarrow> odict_set rel url links
      | _ \<Rightarrow> links)"

text \<open>The capturing groups among the items of a pattern.\<close>

fun is_group :: "rx_item \<Rightarrow> bool" where
  "is_group (Group_Plus cls) = True"
| "is_group item = False"

text \<open>What the writer adds to the file for one category.\<close>

definition render_category :: "(string list \<Rightarrow> string) \<Rightarrow> bool \<Rightarrow> string \<times> watch_data \<Rightarrow> string" where
  "render_category list_repr is_index entry =
     (case entry of
        (category_name, data) \<Rightarrow>
          ''###'' @ category_name @ ''\<newline>''
            @ (if is_index then py_format list_repr data @ ''\<newline>\<newline>''
               else concat (map (\<lambda>tk. tk @ ''\<newline>'') (py_iter data))))"


section \<open>Dictionaries in insertion order\<close>

lemma odict_set_fresh: "k \<notin> fst ` set d \<Longrightarrow> odict_set k v d = d @ [(k, v)]"
  by (induction d) auto

lemma foldl_odict_set_distinct:
  "distinct (map fst d @ map f xs) \<Longrightarrow>
   foldl (\<lambda>d x. odict_set (f x) (g x) d) d xs = d @ map (\<lambda>x. (f x, g x)) xs"
proof (induction xs arbitrary: d)
  case Nil
  then show ?case by simp
next
  case (Cons x xs)
  from Cons.prems have fresh: "f x \<notin> fst ` set d" by auto
  from Cons.prems have "distinct (map fst (d @ [(f x, g x)]) @ map f xs)" by auto
  from Cons.IH [OF this] fresh show ?case by (simp add: odict_set_fresh)
qed

lemma odict_set_modify:
  "distinct (map fst d) \<Longrightarrow> k \<in> fst ` set d \<Longrightarrow>
   odict_set k v d = map (\<lambda>(k', v'). if k' = k then (k', v) else (k', v')) d"
proof (induction d)
  case Nil
  then show ?case by simp
next
  case (Cons p d)
  obtain k' v' where p: "p = (k', v')" by (cases p)
  show ?case
  proof (cases "k' = k")
    case True
    with Cons.prems p have "k \<notin> fst ` set d" by auto
    then have "map (\<lambda>(k', v'). if k' = k then (k', v) else (k', v')) d = d"
      by (induction d) auto
    with True p show ?thesis by simp
  next
    case False
    with Cons p show ?thesis by auto
  qed
qed

lemma map_fst_odict_set:
  "map fst (odict_set k v d) = (if k \<in> fst ` set d then map fst d else map fst d @ [k])"
proof (induction d)
  case Nil
  show ?case by simp
next
  case (Cons p d)
  obtain k' v' where p: "p = (k', v')" by (cases p)
  show ?case using Cons p by (cases "k' = k") (simp_all add: image_iff)
qed

lemma fst_set_odict_set: "fst ` set (odict_set k v d) = insert k (fst ` set d)"
proof -
  have "set (map fst (odict_set k v d)) = insert k (set (map fst d))"
    unfolding map_fst_odict_set by auto
  then show ?thesis by simp
qed

lemma distinct_odict_set: "distinct (map fst d) \<Longrightarrow> distinct (map fst (odict_set k v d))"
  unfolding map_fst_odict_set by auto

section \<open>The rate limiter keeps its window\<close>

























section \<open>The aggregation step\<close>

lemma extend_at_Nil: "extend_at name [] ct = ct"
  unfolding extend_at_def by (induction ct) auto

lemma append_tickers_modify:
  "distinct (map fst ct) \<Longrightarrow> name \<in> fst ` set ct \<Longrightarrow>
   append_tickers ticker_dict name coins ct =
     Inr (extend_at name (List.map_filter ticker_dict coins) ct)"
proof (induction coins arbitrary: ct)
  case Nil
  show ?case by (simp add: extend_at_Nil)
next
  case (Cons c coins)
  show ?case
  proof (cases "ticker_dict c")
    case None
    with Cons show ?thesis by simp
  next
    case (Some t)
    from Cons.prems obtain ts where ts: "map_of ct name = Some ts"
      by (metis domD dom_map_of_conv_image_fst)
    let ?ct = "odict_set name (ts @ [t]) ct"
    have d: "distinct (map fst ?ct)" using Cons.prems by (simp add: distinct_odict_set)
    have n: "name \<in> fst ` set ?ct" by (simp add: fst_set_odict_set)
    have eq: "?ct = map (\<lambda>(k', v'). if k' = name then (k', ts @ [t]) else (k', v')) ct"
      using Cons.prems by (rule odict_set_modify)
    have only: "\<And>k v. (k, v) \<in> set ct \<Longrightarrow> k = name \<Longrightarrow> v = ts"
      using ts Cons.prems(1) by (metis map_of_is_SomeI option.inject)
    have "append_tickers ticker_dict name (c # coins) ct = append_tickers ticker_dict name coins ?ct"
      using Some ts by (simp add: odict_get_def)
    also have "\<dots> = Inr (extend_at name (List.map_filter ticker_dict coins) ?ct)"
      using d n by (rule Cons.IH)
    also have "extend_at name (List.map_filter ticker_dict coins) ?ct
          = extend_at name (List.map_filter ticker_dict (c # coins)) ct"
      unfolding eq extend_at_def using Some only by auto
    finally show ?thesis .
  qed
qed

lemma fst_extend_at: "map fst (extend_at name extra ct) = map fst ct"
  unfolding extend_at_def by (induction ct) auto

lemma categorize_loop_distinct:
  assumes "distinct (map fst ct)"
    and "cat_name ` set cats \<subseteq> fst ` set ct"
    and "\<forall>c\<in>set cats. map_of category_coins (cat_id c) = Some (coins_of c)"
  shows "categorize_loop category_coins ticker_dict cats ct =
     Inr (foldl (\<lambda>d c. extend_at (cat_name c) (List.map_filter ticker_dict (coins_of c)) d) ct cats)"
  using assms
proof (induction cats arbitrary: ct)
  case Nil
  show ?case by simp
next
  case (Cons c cats)
  let ?ct = "extend_at (cat_name c) (List.map_filter ticker_dict (coins_of c)) ct"
  have g: "odict_get category_coins (cat_id c) = Inr (coins_of c)"
    using Cons.prems(3) by (simp add: odict_get_def)
  have a: "append_tickers ticker_dict (cat_name c) (coins_of c) ct = Inr ?ct"
    using Cons.prems(1,2) by (intro append_tickers_modify) auto
  have d: "distinct (map fst ?ct)" using Cons.prems(1) by (simp add: fst_extend_at)
  have s: "cat_name ` set cats \<subseteq> fst ` set ?ct"
  proof -
    have "fst ` set ?ct = set (map fst ?ct)" by simp
    also have "\<dots> = fst ` set ct" by (simp add: fst_extend_at)
    finally show ?thesis using Cons.prems(2) by auto
  qed
  have "\<forall>c\<in>set cats. map_of category_coins (cat_id c) = Some (coins_of c)"
    using Cons.prems(3) by simp
  from Cons.IH [OF d s this] g a show ?case by simp
qed

lemma foldl_extend_at_distinct:
  "distinct (map cat_name (pre @ cats)) \<Longrightarrow>
   foldl (\<lambda>d c. extend_at (cat_name c) (g c) d)
     (map (\<lambda>c. (cat_name c, h c)) pre @ map (\<lambda>c. (cat_name c, [])) cats) cats
   = map (\<lambda>c. (cat_name c, h c)) pre @ map (\<lambda>c. (cat_name c, g c)) cats"
proof (induction cats arbitrary: pre h)
  case Nil
  show ?case by simp
next
  case (Cons c cats)
  let ?h = "\<lambda>x. if x = c then g c else h x"
  have notin: "c \<notin> set pre" "cat_name c \<notin> cat_name ` set pre" "cat_name c \<notin> cat_name ` set cats"
    using Cons.prems by auto
  have 1: "extend_at (cat_name c) (g c) (map (\<lambda>c. (cat_name c, h c)) pre) = map (\<lambda>c. (cat_name c, h c)) pre"
    using notin(2) unfolding extend_at_def by (induction pre) auto
  have 2: "extend_at (cat_name c) (g c) (map (\<lambda>c. (cat_name c, [])) cats) = map (\<lambda>c. (cat_name c, [])) cats"
    using notin(3) unfolding extend_at_def by (induction cats) auto
  have 3: "map (\<lambda>x. (cat_name x, ?h x)) pre = map (\<lambda>c. (cat_name c, h c)) pre"
    using notin(1) by auto
  have step: "extend_at (cat_name c) (g c)
      (map (\<lambda>c. (cat_name c, h c)) pre @ map (\<lambda>c. (cat_name c, [])) (c # cats))
     = map (\<lambda>x. (cat_name x, ?h x)) (pre @ [c]) @ map (\<lambda>c. (cat_name c, [])) cats"
    using 1 2 3 by (simp add: extend_at_def)
  have "distinct (map cat_name ((pre @ [c]) @ cats))" using Cons.prems by simp
  from Cons.IH [OF this, of ?h] step 3 show ?case by simp
qed

text \<open>
  Claim C1, as the code has it. When no two categories share a name, and
  \<^verbatim>\<open>category_coins\<close> holds the coin list \<open>coins_of c\<close> under the id of every
  category \<open>c\<close>, the aggregation step returns the category names in the order of the
  categories, each with the ticker strings of those of its coin ids that have an entry in
  \<^verbatim>\<open>ticker_dict\<close>, in the order of the coin list; a coin id without an entry adds
  nothing. (Categories that share a name share one key and one list: see the
  counterexample below.)
\<close>

theorem categorize_distinct_names:
  assumes "distinct (map cat_name categories)"
    and "\<forall>c\<in>set categories. map_of category_coins (cat_id c) = Some (coins_of c)"
  shows "categorize categories category_coins ticker_dict =
     Inr (map (\<lambda>c. (cat_name c, List.map_filter ticker_dict (coins_of c))) categories)"
proof -
  have init: "init_categorized categories = map (\<lambda>c. (cat_name c, [])) categories"
    unfolding init_categorized_def
    using foldl_odict_set_distinct [of "[]" cat_name categories "\<lambda>_. []"] assms(1) by simp
  have "categorize categories category_coins ticker_dict =
     Inr (foldl (\<lambda>d c. extend_at (cat_name c) (List.map_filter ticker_dict (coins_of c)) d)
        (map (\<lambda>c. (cat_name c, [])) categories) categories)"
    unfolding categorize_def init
    using assms by (intro categorize_loop_distinct) (auto simp: comp_def image_image)
  also have "foldl (\<lambda>d c. extend_at (cat_name c) (List.map_filter ticker_dict (coins_of c)) d)
        (map (\<lambda>c. (cat_name c, [])) categories) categories
     = map (\<lambda>c. (cat_name c, List.map_filter ticker_dict (coins_of c))) categories"
    using foldl_extend_at_distinct [of "[]" categories "\<lambda>c. List.map_filter ticker_dict (coins_of c)" "\<lambda>_. []"] assms(1)
    by simp
  finally show ?thesis .
qed

theorem categorize_distinct_names_witness:
  "distinct (map cat_name [\<lparr>cat_id = ''x'', cat_name = ''X''\<rparr>, \<lparr>cat_id = ''y'', cat_name = ''Y''\<rparr>])
   \<and> categorize [\<lparr>cat_id = ''x'', cat_name = ''X''\<rparr>, \<lparr>cat_id = ''y'', cat_name = ''Y''\<rparr>]
         [(''x'', [''c1'', ''c2'']), (''y'', [''c3''])]
         [''c2'' \<mapsto> ''T2'', ''c3'' \<mapsto> ''T3'']
       = Inr [(''X'', [''T2'']), (''Y'', [''T3''])]"
proof -
  let ?cats = "[\<lparr>cat_id = ''x'', cat_name = ''X''\<rparr>, \<lparr>cat_id = ''y'', cat_name = ''Y''\<rparr>]"
  let ?coins = "\<lambda>c. if cat_id c = ''x'' then [''c1'', ''c2''] else [''c3'']"
  have d: "distinct (map cat_name ?cats)" by simp
  have m: "\<forall>c\<in>set ?cats. map_of [(''x'', [''c1'', ''c2'']), (''y'', [''c3''])] (cat_id c) = Some (?coins c)"
    by simp
  from categorize_distinct_names [OF d m, of "[''c2'' \<mapsto> ''T2'', ''c3'' \<mapsto> ''T3'']"]
  show ?thesis by simp
qed

text \<open>
  Two categories with the same name: the dictionary has one key for both, and the list
  under it collects the tickers of both categories.
\<close>

theorem categorize_shared_name_counterexample:
  "categorize [\<lparr>cat_id = ''a'', cat_name = ''X''\<rparr>, \<lparr>cat_id = ''b'', cat_name = ''X''\<rparr>]
       [(''a'', [''c1'']), (''b'', [''c2''])]
       [''c1'' \<mapsto> ''T1'', ''c2'' \<mapsto> ''T2'']
     = Inr [(''X'', [''T1'', ''T2''])]
   \<and> categorize [\<lparr>cat_id = ''a'', cat_name = ''X''\<rparr>, \<lparr>cat_id = ''b'', cat_name = ''X''\<rparr>]
       [(''a'', [''c1'']), (''b'', [''c2''])]
       [''c1'' \<mapsto> ''T1'', ''c2'' \<mapsto> ''T2'']
     \<noteq> Inr [(''X'', [''T1'']), (''X'', [''T2''])]"
  by (simp add: categorize_def init_categorized_def odict_get_def)

section \<open>Index strings\<close>

lemma create_index_distinct:
  assumes "distinct (map fst ct)"
  shows "create_tradingview_index_string ct = map (\<lambda>(c, ts). (c, index_string ts)) ct"
proof -
  have "foldl (\<lambda>d x. odict_set (fst x) (index_string (snd x)) d) [] ct
      = [] @ map (\<lambda>x. (fst x, index_string (snd x))) ct"
    using assms by (intro foldl_odict_set_distinct) simp
  then show ?thesis
    by (simp add: create_tradingview_index_string_def split_def)
qed

lemma take_min: "take (min n (length xs)) xs = take n xs"
  by (simp add: min_def)

text \<open>
  Claim C2. For a dictionary of ticker lists (its keys are distinct),
  \<^verbatim>\<open>create_tradingview_index_string\<close> maps every category to \<open>(\<close>, then the first
  \<open>min 10 (length ts)\<close> tickers joined with \<open>*\<close>, then \<open>)^(1/N)\<close> with
  \<open>N = min 10 (length ts)\<close>. Tickers \<open>A, B, C\<close> give \<open>(A*B*C)^(1/3)\<close>; twelve
  tickers give the first ten and the suffix \<open>^(1/10)\<close>; no ticker gives \<open>()^(1/0)\<close>.
\<close>

theorem create_tradingview_index_string_spec:
  assumes "distinct (map fst ct)"
  shows "create_tradingview_index_string ct =
           map (\<lambda>(c, ts). (c, ''('' @ py_join ''*'' (take (min 10 (length ts)) ts)
                                @ '')^(1/'' @ str_nat (min 10 (length ts)) @ '')'')) ct
       \<and> create_tradingview_index_string [(c, [A, B, C])] =
           [(c, ''('' @ A @ ''*'' @ B @ ''*'' @ C @ '')^(1/3)'')]
       \<and> (length ts12 = 12 \<longrightarrow>
            create_tradingview_index_string [(c, ts12)] =
              [(c, ''('' @ py_join ''*'' (take 10 ts12) @ '')^(1/10)'')])
       \<and> create_tradingview_index_string [(c, [])] = [(c, ''()^(1/0)'')]"
proof -
  have g: "create_tradingview_index_string ct =
           map (\<lambda>(c, ts). (c, ''('' @ py_join ''*'' (take (min 10 (length ts)) ts)
                                @ '')^(1/'' @ str_nat (min 10 (length ts)) @ '')'')) ct"
    unfolding create_index_distinct [OF assms] index_string_def take_min
    by (simp add: min.commute)
  have one: "\<And>ts. create_tradingview_index_string [(c, ts)] = [(c, index_string ts)]"
    by (simp add: create_tradingview_index_string_def)
  have a: "index_string [A, B, C] = ''('' @ A @ ''*'' @ B @ ''*'' @ C @ '')^(1/3)''"
    by (simp add: index_string_def digit_char_def)
  have b: "length ts12 = 12 \<Longrightarrow> index_string ts12 = ''('' @ py_join ''*'' (take 10 ts12) @ '')^(1/10)''"
    by (simp add: index_string_def digit_char_def)
  have c: "index_string [] = ''()^(1/0)''"
    by (simp add: index_string_def digit_char_def)
  show ?thesis using g a b c by (simp add: one)
qed

theorem create_tradingview_index_string_witness:
  "distinct (map fst [(''AI'', [''BINANCE:FETUSDT'', ''BINANCE:RNDRUSDT'']), (''Empty'', [])])
   \<and> create_tradingview_index_string
        [(''AI'', [''BINANCE:FETUSDT'', ''BINANCE:RNDRUSDT'']), (''Empty'', [])]
       = [(''AI'', ''(BINANCE:FETUSDT*BINANCE:RNDRUSDT)^(1/2)''), (''Empty'', ''()^(1/0)'')]
   \<and> length (replicate 12 ''T'') = 12
   \<and> create_tradingview_index_string [(''Big'', replicate 12 ''T'')]
       = [(''Big'', ''(T*T*T*T*T*T*T*T*T*T)^(1/10)'')]"
proof -
  have d: "distinct (map fst [(''AI'', [''BINANCE:FETUSDT'', ''BINANCE:RNDRUSDT'']), (''Empty'', [])])"
    by simp
  have l: "length (replicate 12 ''T'') = 12" by simp
  have r: "replicate 12 ''T'' = [''T'',''T'',''T'',''T'',''T'',''T'',''T'',''T'',''T'',''T'',''T'',''T'']"
    by (simp add: numeral_eq_Suc)
  from create_tradingview_index_string_spec [OF d, of "''Big''" "[]" "[]" "[]" "replicate 12 ''T''"] l
  show ?thesis
    by (simp add: r digit_char_def)
qed

text \<open>
  Claim C10. The result of \<^verbatim>\<open>create_tradingview_index_string\<close> has the keys of
  its argument, in the same order; a category with an empty ticker list is kept, with the
  index string \<open>()^(1/0)\<close>.
\<close>

theorem create_tradingview_index_string_keys:
  assumes "distinct (map fst ct)"
  shows "map fst (create_tradingview_index_string ct) = map fst ct
       \<and> (\<forall>c. (c, []) \<in> set ct \<longrightarrow> (c, ''()^(1/0)'') \<in> set (create_tradingview_index_string ct))"
proof -
  have c: "index_string [] = ''()^(1/0)''"
    by (simp add: index_string_def digit_char_def)
  have "map fst (map (\<lambda>(c, ts). (c, index_string ts)) ct) = map fst ct"
    by (induction ct) auto
  moreover have "\<And>k. (k, []) \<in> set ct \<Longrightarrow> (k, ''()^(1/0)'') \<in> set (map (\<lambda>(c, ts). (c, index_string ts)) ct)"
    using c by force
  ultimately show ?thesis unfolding create_index_distinct [OF assms] by blast
qed

theorem create_tradingview_index_string_keys_witness:
  "distinct (map fst [(''AI'', [''BINANCE:FETUSDT'']), (''Empty'', [])])
   \<and> map fst (create_tradingview_index_string [(''AI'', [''BINANCE:FETUSDT'']), (''Empty'', [])])
       = [''AI'', ''Empty'']
   \<and> (''Empty'', ''()^(1/0)'') \<in> set (create_tradingview_index_string [(''AI'', [''BINANCE:FETUSDT'']), (''Empty'', [])])"
proof -
  have d: "distinct (map fst [(''AI'', [''BINANCE:FETUSDT'']), (''Empty'', [])])"
    by simp
  from create_tradingview_index_string_keys [OF d] show ?thesis by simp
qed

section \<open>The request wrapper returns\<close>

declare safe_request.simps [simp del]
declare fetch_coins_loop.simps [simp del]

lemma no_negative_sleep_exact: "\<forall>x. fl pf x = x \<Longrightarrow> no_negative_sleep pf"
  by (simp add: no_negative_sleep_def)

lemma wait_returns:
  assumes "1 \<le> max_requests rl" and nn: "no_negative_sleep pf"
  shows "\<exists>rl1 w1 naps. wait pf rl w = Inr (rl1, w1)
           \<and> script w1 = script w
           \<and> max_requests rl1 = max_requests rl \<and> period rl1 = period rl
           \<and> trace w1 = trace w @ map (Slept Limiter) naps"
proof -
  let ?c = "now w + tick pf (reads w)"
  let ?reqs = "dropWhile (\<lambda>r. r < fl pf (?c - period rl)) (requests rl)"
  show ?thesis
  proof (cases "max_requests rl \<le> int (length ?reqs)")
    case False
    then have "\<exists>rl1 w1. wait pf rl w = Inr (rl1, w1) \<and> script w1 = script w
           \<and> max_requests rl1 = max_requests rl \<and> period rl1 = period rl
           \<and> trace w1 = trace w @ map (Slept Limiter) []"
      by (simp add: wait_def monotonic_def Let_def)
    then show ?thesis by blast
  next
    case True
    with assms(1) obtain oldest more where reqs: "?reqs = oldest # more"
      by (cases ?reqs) auto
    have "\<not> oldest < fl pf (?c - period rl)"
      using hd_dropWhile [of "\<lambda>r. r < fl pf (?c - period rl)" "requests rl"] reqs by simp
    with nn have nonneg: "\<not> fl pf (fl pf (oldest + period rl) - ?c) < 0"
      unfolding no_negative_sleep_def by blast
    have "\<exists>rl1 w1. wait pf rl w = Inr (rl1, w1) \<and> script w1 = script w
           \<and> max_requests rl1 = max_requests rl \<and> period rl1 = period rl
           \<and> trace w1 = trace w @ map (Slept Limiter) [fl pf (fl pf (oldest + period rl) - ?c)]"
      using True reqs nonneg by (simp add: wait_def monotonic_def py_sleep_def Let_def)
    then show ?thesis by blast
  qed
qed

lemma wrapper_effects_append [simp]:
  "wrapper_effects (xs @ ys) = wrapper_effects xs @ wrapper_effects ys"
  by (simp add: wrapper_effects_def)

lemma wrapper_effects_naps [simp]: "wrapper_effects (map (Slept Limiter) naps) = []"
  by (induction naps) (simp_all add: wrapper_effects_def)

lemma wrapper_effects_Got [simp]: "wrapper_effects [Got url params] = [Got url params]"
  by (simp add: wrapper_effects_def)

lemma wrapper_effects_Backoff [simp]: "wrapper_effects [Slept Backoff d] = [Slept Backoff d]"
  by (simp add: wrapper_effects_def)

lemma wait_unfold:
  "wait pf rl w =
     (let c = now w + tick pf (reads w);
          reqs = dropWhile (\<lambda>r. r < fl pf (c - period rl)) (requests rl);
          t = tick pf (Suc (reads w))
      in if max_requests rl \<le> int (length reqs) then
           (case reqs of
              [] \<Rightarrow> Inl IndexError
            | oldest # others \<Rightarrow>
                (let d = fl pf (fl pf (oldest + period rl) - c)
                 in if d < 0 then Inl ValueError
                    else Inr (rl\<lparr>requests := reqs @ [c + d + t]\<rparr>,
                              w\<lparr>now := c + d + t, reads := Suc (Suc (reads w)),
                                trace := trace w @ [Slept Limiter d]\<rparr>)))
         else Inr (rl\<lparr>requests := reqs @ [c + t]\<rparr>,
                   w\<lparr>now := c + t, reads := Suc (Suc (reads w))\<rparr>))"
proof (cases "dropWhile (\<lambda>r. r < fl pf (now w + tick pf (reads w) - period rl)) (requests rl)")
  case Nil
  then show ?thesis
    by (simp add: wait_def monotonic_def py_sleep_def Let_def del: dropWhile_eq_Nil_conv)
next
  case (Cons oldest others)
  then show ?thesis
    by (simp add: wait_def monotonic_def py_sleep_def Let_def)
qed

lemma wait_frame:
  assumes "wait pf rl w = Inr (rl1, w1)"
  shows "script w1 = script w \<and> (\<exists>naps. trace w1 = trace w @ map (Slept Limiter) naps)"
proof -
  let ?c = "now w + tick pf (reads w)"
  let ?reqs = "dropWhile (\<lambda>r. r < fl pf (?c - period rl)) (requests rl)"
  show ?thesis
  proof (cases "max_requests rl \<le> int (length ?reqs)")
    case False
    with assms have "script w1 = script w \<and> trace w1 = trace w @ map (Slept Limiter) []"
      by (auto simp: wait_unfold Let_def)
    then show ?thesis by blast
  next
    case True
    show ?thesis
    proof (cases ?reqs)
      case Nil
      with True assms show ?thesis
        by (simp add: wait_unfold Let_def del: dropWhile_eq_Nil_conv)
    next
      case (Cons oldest more)
      let ?d = "fl pf (fl pf (oldest + period rl) - ?c)"
      from assms True Cons
      have "script w1 = script w \<and> trace w1 = trace w @ map (Slept Limiter) [?d]"
        by (auto simp: wait_unfold Let_def split: if_splits)
      then show ?thesis by blast
    qed
  qed
qed

text \<open>
  \<^verbatim>\<open>wait\<close> looks at the clock and at the deque only: on two worlds with the same
  clock it does the same.
\<close>

lemma wait_clock:
  assumes "now w' = now w" and "reads w' = reads w"
  shows "wait pf rl w' = map_sum (\<lambda>e. e)
           (\<lambda>(rl1, w1). (rl1, w'\<lparr>now := now w1, reads := reads w1,
                                  trace := trace w' @ drop (length (trace w)) (trace w1)\<rparr>))
           (wait pf rl w)"
proof (cases "dropWhile (\<lambda>r. r < fl pf (now w + tick pf (reads w) - period rl)) (requests rl)")
  case Nil
  then show ?thesis
    unfolding wait_unfold Let_def assms by (simp del: dropWhile_eq_Nil_conv)
next
  case (Cons oldest others)
  then show ?thesis
    unfolding wait_unfold Let_def assms by simp
qed

lemma wait_clock_raises:
  assumes "now w' = now w" and "reads w' = reads w" and "wait pf rl w = Inl e"
  shows "wait pf rl w' = Inl e"
  by (simp add: wait_clock [OF assms(1,2)] assms(3))

lemma wait_clock_returns:
  assumes "now w' = now w" and "reads w' = reads w" and "wait pf rl w = Inr (rl1, w1)"
  shows "\<exists>w1'. wait pf rl w' = Inr (rl1, w1') \<and> now w1' = now w1 \<and> reads w1' = reads w1"
  by (simp add: wait_clock [OF assms(1,2)] assms(3))

lemma admits_clock:
  "now w' = now w \<Longrightarrow> reads w' = reads w \<Longrightarrow> admits pf outs rl w' = admits pf outs rl w"
proof (induction outs arbitrary: rl w w')
  case Nil
  show ?case by simp
next
  case (Cons out outs)
  show ?case
  proof (cases "wait pf rl w")
    case (Inl e)
    with wait_clock_raises [OF Cons.prems this] show ?thesis by simp
  next
    case (Inr r)
    obtain rl1 w1 where r: "r = (rl1, w1)" by (cases r)
    from wait_clock_returns [OF Cons.prems Inr [unfolded r]] obtain w1' where
      w': "wait pf rl w' = Inr (rl1, w1')" and n: "now w1' = now w1" and rd: "reads w1' = reads w1"
      by blast
    have "admits pf outs rl1 (if is_retry out then w1'\<lparr>now := now w1' + 10\<rparr> else w1')
        = admits pf outs rl1 (if is_retry out then w1\<lparr>now := now w1 + 10\<rparr> else w1)"
      by (rule Cons.IH) (simp_all add: n rd)
    with Inr r w' show ?thesis by simp
  qed
qed

lemma admits_step:
  assumes "admits pf (out # outs) rl w"
  shows "\<exists>rl1 w1 naps. wait pf rl w = Inr (rl1, w1) \<and> script w1 = script w
           \<and> trace w1 = trace w @ map (Slept Limiter) naps
           \<and> admits pf outs rl1 (if is_retry out then w1\<lparr>now := now w1 + 10\<rparr> else w1)"
proof (cases "wait pf rl w")
  case (Inl e)
  with assms show ?thesis by simp
next
  case (Inr r)
  obtain rl1 w1 where r: "r = (rl1, w1)" by (cases r)
  from wait_frame [OF Inr [unfolded r]] obtain naps where
    "script w1 = script w" "trace w1 = trace w @ map (Slept Limiter) naps" by blast
  with assms Inr r show ?thesis by auto
qed

text \<open>With exact arithmetic, or any arithmetic that gives no negative sleep, a rate
  limiter with \<open>max_requests\<close> at least 1 admits every attempt.\<close>

lemma admits_no_negative_sleep:
  "1 \<le> max_requests rl \<Longrightarrow> no_negative_sleep pf \<Longrightarrow> admits pf outs rl w"
proof (induction outs arbitrary: rl w)
  case Nil
  show ?case by simp
next
  case (Cons out outs rl w)
  from wait_returns [OF Cons.prems, of w] obtain rl1 w1 where
    wt: "wait pf rl w = Inr (rl1, w1)" and m1: "max_requests rl1 = max_requests rl" by blast
  have "1 \<le> max_requests rl1" using m1 Cons.prems(1) by simp
  then have "admits pf outs rl1 (if is_retry out then w1\<lparr>now := now w1 + 10\<rparr> else w1)"
    using Cons.prems(2) by (rule Cons.IH)
  with wt show ?case by simp
qed

lemma safe_request_final:
  assumes adm: "admits pf (out # outs) rl w"
    and sc: "script w = out # rest"
    and out: "\<not> is_retry out"
  shows "\<exists>rl1 w1. safe_request pf url params rl w =
              Some (map_sum (\<lambda>e. e) (\<lambda>r. (r, rl1, w1)) (outcome_reply out))
           \<and> script w1 = rest
           \<and> admits pf outs rl1 w1
           \<and> wrapper_effects (trace w1) = wrapper_effects (trace w) @ [Got url params]"
proof -
  from admits_step [OF adm] out obtain rl1 w1 naps where
    wt: "wait pf rl w = Inr (rl1, w1)" and s1: "script w1 = script w"
    and t1: "trace w1 = trace w @ map (Slept Limiter) naps"
    and a1: "admits pf outs rl1 w1"
    by auto
  let ?w2 = "w1\<lparr>script := rest, trace := trace w1 @ [Got url params]\<rparr>"
  have "safe_request pf url params rl w =
              Some (map_sum (\<lambda>e. e) (\<lambda>r. (r, rl1, ?w2)) (outcome_reply out))"
  proof (cases out)
    case NoResponse
    with wt s1 sc show ?thesis
      by (simp add: safe_request.simps [of pf url params rl w])
  next
    case (Response code body hdrs)
    with out have "code \<noteq> 429" by simp
    with Response wt s1 sc show ?thesis
      by (cases body) (simp_all add: safe_request.simps [of pf url params rl w])
  qed
  moreover have "wrapper_effects (trace ?w2) = wrapper_effects (trace w) @ [Got url params]"
    by (simp add: t1)
  moreover have "admits pf outs rl1 ?w2 = admits pf outs rl1 w1"
    by (rule admits_clock) simp_all
  then have "admits pf outs rl1 ?w2" using a1 by blast
  ultimately show ?thesis
    by (intro exI [of _ rl1] exI [of _ ?w2]) simp
qed

lemma safe_request_retries:
  assumes adm: "admits pf (throttled bs @ out # outs) rl w"
    and sc: "script w = throttled bs @ out # rest"
    and out: "\<not> is_retry out"
  shows "\<exists>rl1 w1. safe_request pf url params rl w =
              Some (map_sum (\<lambda>e. e) (\<lambda>r. (r, rl1, w1)) (outcome_reply out))
           \<and> script w1 = rest
           \<and> admits pf outs rl1 w1
           \<and> wrapper_effects (trace w1)
               = wrapper_effects (trace w) @ attempt_effects url params (length bs)"
  using adm sc
proof (induction bs arbitrary: rl w)
  case Nil
  then have "admits pf (out # outs) rl w" and "script w = out # rest"
    by (simp_all add: throttled_def)
  from safe_request_final [OF this out, of url params]
  show ?case by (simp add: attempt_effects_def)
next
  case (Cons b bs)
  obtain body hdrs where b: "b = (body, hdrs)" by (cases b)
  let ?rest = "throttled bs @ out # rest"
  have sc: "script w = Response 429 body hdrs # ?rest"
    using Cons.prems(2) b by (simp add: throttled_def)
  have "admits pf (Response 429 body hdrs # (throttled bs @ out # outs)) rl w"
    using Cons.prems(1) b by (simp add: throttled_def)
  from admits_step [OF this] obtain rl1 w1 naps where
    wt: "wait pf rl w = Inr (rl1, w1)" and s1: "script w1 = script w"
    and t1: "trace w1 = trace w @ map (Slept Limiter) naps"
    and a1: "admits pf (throttled bs @ out # outs) rl1 (w1\<lparr>now := now w1 + 10\<rparr>)"
    by auto
  let ?w2 = "w1\<lparr>script := ?rest, trace := trace w1 @ [Got url params]\<rparr>"
  let ?w3 = "?w2\<lparr>now := now ?w2 + 10, trace := trace ?w2 @ [Slept Backoff 10]\<rparr>"
  have step: "safe_request pf url params rl w = safe_request pf url params rl1 ?w3"
    using wt s1 sc
    by (simp add: safe_request.simps [of pf url params rl w] py_sleep_def raises_for_status_def)
  have "admits pf (throttled bs @ out # outs) rl1 ?w3
      = admits pf (throttled bs @ out # outs) rl1 (w1\<lparr>now := now w1 + 10\<rparr>)"
    by (rule admits_clock) simp_all
  with a1 have "admits pf (throttled bs @ out # outs) rl1 ?w3" by blast
  moreover have "script ?w3 = throttled bs @ out # rest" by simp
  ultimately obtain rl2 w4 where
    r: "safe_request pf url params rl1 ?w3 =
              Some (map_sum (\<lambda>e. e) (\<lambda>r. (r, rl2, w4)) (outcome_reply out))"
    and s4: "script w4 = rest"
    and a4: "admits pf outs rl2 w4"
    and t4: "wrapper_effects (trace w4) = wrapper_effects (trace ?w3)
                @ attempt_effects url params (length bs)"
    using Cons.IH [of rl1 ?w3] by blast
  have "wrapper_effects (trace ?w3) = wrapper_effects (trace w) @ [Got url params, Slept Backoff 10]"
    by (simp add: t1 wrapper_effects_def)
  with t4 have "wrapper_effects (trace w4) = wrapper_effects (trace w)
                @ attempt_effects url params (length (b # bs))"
    by (simp add: attempt_effects_def)
  with step r s4 a4 show ?case
    by (intro exI [of _ rl2] exI [of _ w4]) simp
qed

section \<open>Paging through the coins of a category\<close>

lemma page_ids_Nil [simp]: "page_ids [] = []"
  by (simp add: page_ids_def)

lemma page_ids_Cons [simp]: "page_ids (p # ps) = map row_id (rows_of p) @ page_ids ps"
  by (simp add: page_ids_def)

lemma page_ids_append [simp]: "page_ids (ps @ qs) = page_ids ps @ page_ids qs"
  by (simp add: page_ids_def)

lemma fetch_coins_loop_stopped:
  "fetch_coins_loop pf category_id max_coins False page coins rl w = Some (Inr (coins, rl, w))"
  by (simp add: fetch_coins_loop.simps)

lemma error_is_not_page: "is_error_status p \<Longrightarrow> rows_of p = []"
  by (cases p) simp_all

lemma retry_is_error: "is_retry p \<Longrightarrow> is_error_status p"
  by (cases p) (simp_all add: raises_for_status_def)

lemma fetch_coins_loop_last_reply:
  assumes r: "safe_request pf (BASE_URL @ ''/coins/markets'') (Some (markets_params category_id page)) rl w
         = Some (map_sum (\<lambda>e. e) (\<lambda>r. (r, rl1, w1)) (outcome_reply p))"
    and ne: "\<not> is_error_status p"
    and room: "int (length coins) < max_coins"
    and stop: "length (rows_of p) < 250 \<or> max_coins \<le> int (length coins + length (rows_of p))"
  shows "fetch_coins_loop pf category_id max_coins True page coins rl w =
            Some (Inr (coins @ take (nat max_coins - length coins) (map row_id (rows_of p)), rl1, w1))"
proof -
  have tk: "nat (max_coins - int (length coins)) = nat max_coins - length coins"
    by simp
  show ?thesis
  proof (cases p)
    case NoResponse
    with r room show ?thesis
      by (simp add: fetch_coins_loop.simps [of _ _ _ True] fetch_coins_loop_stopped)
  next
    case (Response code body hdrs)
    with ne have ok: "\<not> raises_for_status code" by simp
    show ?thesis
    proof (cases body)
      case None
      with Response ok r room show ?thesis
        by (simp add: fetch_coins_loop.simps [of _ _ _ True] fetch_coins_loop_stopped)
    next
      case (Some rows)
      show ?thesis
      proof (cases "rows = []")
        case True
        with Some Response ok r room show ?thesis
          by (simp add: fetch_coins_loop.simps [of _ _ _ True] fetch_coins_loop_stopped)
      next
        case False
        have "max_coins \<le> int (length (coins @ take (nat max_coins - length coins) (map row_id rows)))
              \<or> int (length (map row_id rows)) < 250"
          using stop Some Response ok room by (auto simp: min_def)
        with False Some Response ok r room show ?thesis
          by (simp add: fetch_coins_loop.simps [of _ _ _ True] fetch_coins_loop_stopped Let_def tk
                   del: length_append length_take length_map)
      qed
    qed
  qed
qed

lemma fetch_coins_loop_full_pages:
  assumes "admits pf (concat (map answers pre) @ outs) rl w"
    and "script w = concat (map answers pre) @ rest"
    and "\<forall>a\<in>set pre. 250 \<le> length (rows_of (snd a))"
    and "int (length coins + length (page_ids (map snd pre))) < max_coins"
  shows "\<exists>rl1 w1. fetch_coins_loop pf category_id max_coins True page coins rl w =
            fetch_coins_loop pf category_id max_coins True (page + int (length pre))
              (coins @ page_ids (map snd pre)) rl1 w1
          \<and> script w1 = rest \<and> admits pf outs rl1 w1
          \<and> wrapper_effects (trace w1) =
              wrapper_effects (trace w) @ page_effects category_id page (map (\<lambda>a. length (fst a)) pre)"
  using assms
proof (induction pre arbitrary: page coins rl w)
  case Nil
  then show ?case by (intro exI [of _ rl] exI [of _ w]) simp
next
  case (Cons a pre)
  obtain bs q where a: "a = (bs, q)" by (cases a)
  from Cons.prems(3) a have big: "250 \<le> length (rows_of q)" by simp
  then have nerr: "\<not> is_error_status q" using error_is_not_page [of q] by auto
  then have nretry: "\<not> is_retry q" using retry_is_error [of q] by auto
  from big nerr obtain code rows hdrs where q: "q = Response code (Some rows) hdrs"
    and ok: "\<not> raises_for_status code" and full: "250 \<le> length rows"
    by (cases q) (auto split: option.splits if_splits)
  let ?url = "BASE_URL @ ''/coins/markets''"
  let ?params = "Some (markets_params category_id page)"
  have sc: "script w = throttled bs @ q # (concat (map answers pre) @ rest)"
    using Cons.prems(2) a by simp
  have adm: "admits pf (throttled bs @ q # (concat (map answers pre) @ outs)) rl w"
    using Cons.prems(1) a by simp
  from safe_request_retries [OF adm sc nretry, of ?url ?params]
  obtain rl1 w1 where
    r: "safe_request pf ?url ?params rl w = Some (Inr ((Some rows, Some hdrs), rl1, w1))"
    and s: "script w1 = concat (map answers pre) @ rest"
    and m1: "admits pf (concat (map answers pre) @ outs) rl1 w1"
    and t: "wrapper_effects (trace w1) = wrapper_effects (trace w)
               @ attempt_effects ?url ?params (length bs)"
    using q ok by auto
  let ?coins1 = "coins @ map row_id rows"
  have room: "int (length coins) < max_coins" using Cons.prems(4) by simp
  have fits: "int (length coins + length rows) < max_coins"
    using Cons.prems(4) a q ok by simp
  then have tk: "take (nat (max_coins - int (length coins))) (map row_id rows) = map row_id rows"
    by simp
  have step: "fetch_coins_loop pf category_id max_coins True page coins rl w =
        fetch_coins_loop pf category_id max_coins True (page + 1) ?coins1 rl1 w1"
  proof -
    from full have "rows \<noteq> []" by auto
    with r room fits full show ?thesis
      by (simp add: fetch_coins_loop.simps [of _ _ _ True page] Let_def tk)
  qed
  have 3: "\<forall>a\<in>set pre. 250 \<le> length (rows_of (snd a))" using Cons.prems(3) by simp
  have 4: "int (length ?coins1 + length (page_ids (map snd pre))) < max_coins"
    using Cons.prems(4) a q ok by simp
  from Cons.IH [OF m1 s 3 4, of "page + 1"] obtain rl2 w2 where
    r2: "fetch_coins_loop pf category_id max_coins True (page + 1) ?coins1 rl1 w1 =
            fetch_coins_loop pf category_id max_coins True (page + 1 + int (length pre))
              (?coins1 @ page_ids (map snd pre)) rl2 w2"
    and s2: "script w2 = rest" and m2: "admits pf outs rl2 w2"
    and t2: "wrapper_effects (trace w2) =
              wrapper_effects (trace w1) @ page_effects category_id (page + 1) (map (\<lambda>a. length (fst a)) pre)"
    by blast
  have ids: "coins @ page_ids (map snd (a # pre)) = ?coins1 @ page_ids (map snd pre)"
    using a q ok by simp
  have pg: "page + int (length (a # pre)) = page + 1 + int (length pre)" by simp
  have "wrapper_effects (trace w2) =
      wrapper_effects (trace w) @ page_effects category_id page (map (\<lambda>a. length (fst a)) (a # pre))"
    using t t2 a by simp
  with step r2 s2 m2 show ?case
    unfolding ids pg by (intro exI [of _ rl2] exI [of _ w2]) simp
qed

lemma fetch_coins_loop_pages:
  assumes "admits pf (concat (map answers pre) @ answers (bs, p)) rl w"
    and "script w = concat (map answers pre) @ answers (bs, p) @ post"
    and "\<not> is_error_status p"
    and "\<forall>a\<in>set pre. 250 \<le> length (rows_of (snd a))"
    and "int (length coins + length (page_ids (map snd pre))) < max_coins"
    and "length (rows_of p) < 250
         \<or> max_coins \<le> int (length coins + length (page_ids (map snd pre @ [p])))"
  shows "\<exists>rl1 w1. fetch_coins_loop pf category_id max_coins True page coins rl w =
            Some (Inr (coins @ take (nat max_coins - length coins) (page_ids (map snd pre @ [p])),
                       rl1, w1))
          \<and> script w1 = post
          \<and> wrapper_effects (trace w1) =
              wrapper_effects (trace w)
                @ page_effects category_id page (map (\<lambda>a. length (fst a)) (pre @ [(bs, p)]))"
proof -
  let ?url = "BASE_URL @ ''/coins/markets''"
  let ?page = "page + int (length pre)"
  let ?coins = "coins @ page_ids (map snd pre)"
  from fetch_coins_loop_full_pages [OF assms(1,2,4,5), of category_id page]
  obtain rl1 w1 where
    run: "fetch_coins_loop pf category_id max_coins True page coins rl w =
            fetch_coins_loop pf category_id max_coins True ?page ?coins rl1 w1"
    and s1: "script w1 = answers (bs, p) @ post" and m1: "admits pf (answers (bs, p)) rl1 w1"
    and t1: "wrapper_effects (trace w1) =
              wrapper_effects (trace w) @ page_effects category_id page (map (\<lambda>a. length (fst a)) pre)"
    by blast
  have 1: "admits pf (throttled bs @ p # []) rl1 w1" using m1 by simp
  have sc: "script w1 = throttled bs @ p # post" using s1 by simp
  have nretry: "\<not> is_retry p" using assms(3) retry_is_error [of p] by auto
  from safe_request_retries [OF 1 sc nretry, of ?url "Some (markets_params category_id ?page)"]
  obtain rl2 w2 where
    r: "safe_request pf ?url (Some (markets_params category_id ?page)) rl1 w1
         = Some (map_sum (\<lambda>e. e) (\<lambda>r. (r, rl2, w2)) (outcome_reply p))"
    and s2: "script w2 = post"
    and t2: "wrapper_effects (trace w2) = wrapper_effects (trace w1)
              @ attempt_effects ?url (Some (markets_params category_id ?page)) (length bs)"
    by blast
  have room: "int (length ?coins) < max_coins" using assms(5) by simp
  have stop: "length (rows_of p) < 250 \<or> max_coins \<le> int (length ?coins + length (rows_of p))"
    using assms(6) by (simp add: add.assoc)
  have last: "fetch_coins_loop pf category_id max_coins True ?page ?coins rl1 w1 =
      Some (Inr (?coins @ take (nat max_coins - length ?coins) (map row_id (rows_of p)), rl2, w2))"
    using r assms(3) room stop by (rule fetch_coins_loop_last_reply)
  have fits: "length coins + length (page_ids (map snd pre)) \<le> nat max_coins"
    using assms(5) by simp
  have ids: "?coins @ take (nat max_coins - length ?coins) (map row_id (rows_of p))
      = coins @ take (nat max_coins - length coins) (page_ids (map snd pre @ [p]))"
    using fits by simp
  have pe: "page_effects category_id page (map (\<lambda>a. length (fst a)) (pre @ [(bs, p)]))
      = page_effects category_id page (map (\<lambda>a. length (fst a)) pre)
        @ attempt_effects ?url (Some (markets_params category_id ?page)) (length bs)"
    by (induction pre arbitrary: page) (simp_all add: add.assoc)
  show ?thesis
    using run last s2 t1 t2 unfolding ids pe
    by (intro exI [of _ rl2] exI [of _ w2]) simp
qed





text \<open>
  Claim C9. With \<open>max_coins \<le> 0\<close> the loop is not entered: the result is the empty
  list, and the rate limiter and the world (answers to come, trace of requests) are what
  they were.
\<close>

theorem fetch_coins_by_category_nothing_to_do:
  "max_coins \<le> 0 \<Longrightarrow>
   fetch_coins_by_category pf category_id category_name rl max_coins w = Some (Inr ([], rl, w))"
  by (simp add: fetch_coins_by_category_def fetch_coins_loop.simps)

theorem fetch_coins_by_category_nothing_to_do_witness:
  "(-3 :: int) \<le> 0
   \<and> fetch_coins_by_category \<lparr>fl = \<lambda>x. x, tick = \<lambda>k. 1\<rparr> ''ai'' ''AI'' (RateLimiter 1 2) (-3)
       \<lparr>now = 0, reads = 0, script = [Response 200 (Some [\<lparr>row_id = ''btc''\<rparr>]) []], trace = []\<rparr>
     = Some (Inr ([], RateLimiter 1 2,
          \<lparr>now = 0, reads = 0, script = [Response 200 (Some [\<lparr>row_id = ''btc''\<rparr>]) []], trace = []\<rparr>))"
proof -
  have h: "(-3 :: int) \<le> 0" by simp
  from fetch_coins_by_category_nothing_to_do [OF h] h show ?thesis by simp
qed

section \<open>Outcomes of a request and what the fetchers make of them\<close>

lemma no_payload_reply: "no_payload out \<Longrightarrow> outcome_reply out = Inr (None, None)"
  by (cases out) auto

lemma no_payload_final: "no_payload out \<Longrightarrow> \<not> is_retry out"
  by (cases out) (auto simp: raises_for_status_def)

lemma no_payload_rows: "no_payload out \<Longrightarrow> rows_of out = []"
  by (cases out) auto

lemma no_payload_status: "no_payload out \<Longrightarrow> \<not> is_error_status out"
  by (cases out) auto

lemma safe_request_no_payload:
  assumes "admits pf (out # outs) rl w"
    and "script w = out # rest" and "no_payload out"
  shows "\<exists>rl1 w1. safe_request pf url params rl w = Some (Inr ((None, None), rl1, w1))
           \<and> script w1 = rest \<and> admits pf outs rl1 w1"
  using safe_request_final [OF assms(1,2) no_payload_final [OF assms(3)], of url params]
  by (auto simp: no_payload_reply [OF assms(3)])

lemma safe_request_payload:
  assumes "admits pf (Response status (Some body) hdrs # outs) rl w"
    and "script w = Response status (Some body) hdrs # rest" and "\<not> raises_for_status status"
  shows "\<exists>rl1 w1. safe_request pf url params rl w = Some (Inr ((Some body, Some hdrs), rl1, w1))
           \<and> script w1 = rest \<and> admits pf outs rl1 w1"
proof -
  have "\<not> is_retry (Response status (Some body) hdrs)"
    using assms(3) by (auto simp: raises_for_status_def)
  from safe_request_final [OF assms(1,2) this, of url params] assms(3)
  show ?thesis by auto
qed

lemma fetch_categories_no_payload:
  assumes "admits pf [out] rl w"
    and "script w = out # rest" and "no_payload out"
  shows "\<exists>rl1 w1. fetch_categories pf rl limit w = Some (Inr ([], rl1, w1)) \<and> script w1 = rest"
  using safe_request_no_payload [OF assms,
      of "BASE_URL @ ''/coins/categories?order=market_cap_desc''" None]
  by (auto simp: fetch_categories_def)

lemma fetch_coins_no_payload:
  assumes "admits pf (concat (map answers pre) @ [out]) rl w"
    and "script w = concat (map answers pre) @ out # rest" and "no_payload out"
    and "\<forall>a\<in>set pre. 250 \<le> length (rows_of (snd a))"
    and "int (length (page_ids (map snd pre))) < max_coins"
  shows "\<exists>rl1 w1. fetch_coins_by_category pf category_id category_name rl max_coins w
            = Some (Inr (page_ids (map snd pre), rl1, w1)) \<and> script w1 = rest"
proof -
  have 1: "admits pf (concat (map answers pre) @ answers ([], out)) rl w"
    using assms(1) by (simp add: throttled_def)
  have 2: "script w = concat (map answers pre) @ answers ([], out) @ rest"
    using assms(2) by (simp add: throttled_def)
  have 5: "int (length ([] :: string list) + length (page_ids (map snd pre))) < max_coins"
    using assms(5) by simp
  have 6: "length (rows_of out) < 250
      \<or> max_coins \<le> int (length ([] :: string list) + length (page_ids (map snd pre @ [out])))"
    by (simp add: no_payload_rows [OF assms(3)])
  have "take (nat max_coins) (page_ids (map snd pre @ [out])) = page_ids (map snd pre)"
    using assms(5) by (simp add: no_payload_rows [OF assms(3)])
  with fetch_coins_loop_pages [OF 1 2 no_payload_status [OF assms(3)] assms(4) 5 6,
      of category_id 1]
  show ?thesis unfolding fetch_coins_by_category_def by auto
qed

lemma fetch_tickers_loop_pages:
  assumes "admits pf (ticker_answers pages @ [out]) rl w"
    and "script w = ticker_answers pages @ out # rest" and np: "no_payload out"
    and "\<forall>p\<in>set pages. \<not> raises_for_status (fst p) \<and> next_link (snd (snd p)) \<noteq> None"
  shows "\<exists>rl1 w1. fetch_tickers_loop pf update_request_url target_symbol url params collected rl w
            = Some (Inr (collected @ kept_tickers target_symbol pages, rl1, w1))
          \<and> script w1 = rest"
  using assms(1,2,4)
proof (induction pages arbitrary: url params collected rl w)
  case Nil
  then have "script w = out # rest" and "admits pf (out # []) rl w"
    by (simp_all add: ticker_answers_def)
  from safe_request_no_payload [OF this(2,1) np, of url "Some params"]
  obtain rl1 w1 where
    "safe_request pf url (Some params) rl w = Some (Inr ((None, None), rl1, w1))"
    "script w1 = rest" by blast
  then show ?case
    by (subst fetch_tickers_loop.simps) (simp add: kept_tickers_def)
next
  case (Cons p pages)
  obtain code body hs where p: "p = (code, body, hs)" by (cases p)
  have sc: "script w = Response code (Some body) hs # (ticker_answers pages @ out # rest)"
    using Cons.prems(2) by (simp add: ticker_answers_def p)
  have ad: "admits pf (Response code (Some body) hs # (ticker_answers pages @ [out])) rl w"
    using Cons.prems(1) by (simp add: ticker_answers_def p)
  have ok: "\<not> raises_for_status code" using Cons.prems(3) by (simp add: p)
  from Cons.prems(3) obtain next_url where
    nx: "map_of (parse_link_header (header_get hs ''Link'' '''')) ''next'' = Some next_url"
    by (auto simp: p next_link_def)
  from safe_request_payload [OF ad sc ok, of url "Some params"]
  obtain rl1 w1 where
    r: "safe_request pf url (Some params) rl w = Some (Inr ((Some body, Some hs), rl1, w1))"
    and s1: "script w1 = ticker_answers pages @ out # rest"
    and m1: "admits pf (ticker_answers pages @ [out]) rl1 w1" by blast
  obtain url1 params1 where u: "update_request_url next_url = (url1, params1)"
    by (cases "update_request_url next_url")
  let ?c = "collected @ filter (\<lambda>t. target t = target_symbol) (tickers body)"
  have step: "fetch_tickers_loop pf update_request_url target_symbol url params collected rl w
      = fetch_tickers_loop pf update_request_url target_symbol url1 params1 ?c rl1 w1"
    by (subst fetch_tickers_loop.simps) (simp add: r nx u)
  have "\<forall>p\<in>set pages. \<not> raises_for_status (fst p) \<and> next_link (snd (snd p)) \<noteq> None"
    using Cons.prems(3) by simp
  with m1 obtain rl2 w2 where
    "fetch_tickers_loop pf update_request_url target_symbol url1 params1 ?c rl1 w1
       = Some (Inr (?c @ kept_tickers target_symbol pages, rl2, w2))"
    "script w2 = rest"
    using Cons.IH [of rl1 w1 url1 params1 ?c] s1 by blast
  with step show ?case
    by (intro exI [of _ rl2] exI [of _ w2]) (simp add: kept_tickers_def p)
qed

text \<open>
  Claim C6, as the code has it. The rate limiter admits the attempts in question.
  \<^verbatim>\<open>raise_for_status\<close> raises for the statuses 400 to 599 only. So
  \<^verbatim>\<open>safe_request\<close> returns the body and the headers of a response whose status is no
  error and whose body is JSON; raises the \<^verbatim>\<open>HTTPError\<close> of a status from 400 to 599
  other than 429; and returns \<^verbatim>\<open>(None, None)\<close> when the request fails without a
  response or the body of a response without error status is not JSON. On that pair
  \<^verbatim>\<open>fetch_categories\<close> returns the empty list, \<^verbatim>\<open>fetch_coins_by_category\<close>
  returns the ids of the full pages it has got before (each possibly after answers with
  status 429), and \<^verbatim>\<open>fetch_tickers_for_exchange\<close> returns the tickers with the
  target symbol of the pages it has got before, each of which carried a \<^verbatim>\<open>next\<close>
  link; none of them sends a further request: the answers after it are still to come.
  With \<open>max_requests\<close> at least 1 and exact arithmetic on times the rate limiter
  admits every attempt.
\<close>

theorem safe_request_outcomes:
  "(script wok = Response status (Some body) hdrs # rest
       \<and> admits pf [Response status (Some body) hdrs] rl wok
       \<and> \<not> raises_for_status status \<longrightarrow>
       (\<exists>rl1 w1. safe_request pf url params rl wok = Some (Inr ((Some body, Some hdrs), rl1, w1))
          \<and> script w1 = rest))
   \<and> (script werr = Response code body_e hdrs_e # rest_e
        \<and> admits pf [Response code body_e hdrs_e] rl werr
        \<and> raises_for_status code \<and> code \<noteq> 429 \<longrightarrow>
        safe_request pf url params rl werr = Some (Inl (HTTPError code)))
   \<and> (script wnet = out # rest_n \<and> admits pf [out] rl wnet \<and> no_payload out \<longrightarrow>
        (\<exists>rl1 w1. safe_request pf url params rl wnet = Some (Inr ((None, None), rl1, w1))
           \<and> script w1 = rest_n))
   \<and> (script wc = out_c # rest_c \<and> admits pf [out_c] rl wc \<and> no_payload out_c \<longrightarrow>
        (\<exists>rl1 w1. fetch_categories pf rl limit wc = Some (Inr ([], rl1, w1))
           \<and> script w1 = rest_c))
   \<and> (script wm = concat (map answers pre) @ out_m # rest_m
        \<and> admits pf (concat (map answers pre) @ [out_m]) rl wm
        \<and> no_payload out_m
        \<and> (\<forall>a\<in>set pre. 250 \<le> length (rows_of (snd a)))
        \<and> int (length (page_ids (map snd pre))) < max_coins \<longrightarrow>
        (\<exists>rl1 w1. fetch_coins_by_category pf category_id category_name rl max_coins wm
             = Some (Inr (page_ids (map snd pre), rl1, w1))
           \<and> script w1 = rest_m))
   \<and> (script wt = ticker_answers pages @ out_t # rest_t
        \<and> admits pf (ticker_answers pages @ [out_t]) rl wt
        \<and> no_payload out_t
        \<and> (\<forall>p\<in>set pages. \<not> raises_for_status (fst p) \<and> next_link (snd (snd p)) \<noteq> None) \<longrightarrow>
        (\<exists>rl1 w1. fetch_tickers_for_exchange pf update_request_url exchange_id exchange_name
             target_id target_symbol rl wt
             = Some (Inr (kept_tickers target_symbol pages, rl1, w1))
           \<and> script w1 = rest_t))
   \<and> (1 \<le> max_requests rl \<and> (\<forall>x. fl pf x = x) \<longrightarrow> admits pf outs rl wx)"
proof (intro conjI impI)
  assume "script wok = Response status (Some body) hdrs # rest
       \<and> admits pf [Response status (Some body) hdrs] rl wok
       \<and> \<not> raises_for_status status"
  then have sc: "script wok = Response status (Some body) hdrs # rest"
    and ad: "admits pf [Response status (Some body) hdrs] rl wok"
    and ok: "\<not> raises_for_status status" by blast+
  from safe_request_payload [OF ad sc ok, of url params]
  show "\<exists>rl1 w1. safe_request pf url params rl wok = Some (Inr ((Some body, Some hdrs), rl1, w1))
               \<and> script w1 = rest"
    by blast
next
  assume a: "script werr = Response code body_e hdrs_e # rest_e
        \<and> admits pf [Response code body_e hdrs_e] rl werr
        \<and> raises_for_status code \<and> code \<noteq> 429"
  then have sc: "script werr = Response code body_e hdrs_e # rest_e"
    and ad: "admits pf [Response code body_e hdrs_e] rl werr"
    and nr: "\<not> is_retry (Response code body_e hdrs_e)"
    by simp_all
  from safe_request_final [OF ad sc nr, of url params] a
  show "safe_request pf url params rl werr = Some (Inl (HTTPError code))"
    by auto
next
  assume "script wnet = out # rest_n \<and> admits pf [out] rl wnet \<and> no_payload out"
  then have sc: "script wnet = out # rest_n" and ad: "admits pf [out] rl wnet"
    and np: "no_payload out" by blast+
  from safe_request_no_payload [OF ad sc np, of url params]
  show "\<exists>rl1 w1. safe_request pf url params rl wnet = Some (Inr ((None, None), rl1, w1))
               \<and> script w1 = rest_n"
    by blast
next
  assume "script wc = out_c # rest_c \<and> admits pf [out_c] rl wc \<and> no_payload out_c"
  then have sc: "script wc = out_c # rest_c" and ad: "admits pf [out_c] rl wc"
    and np: "no_payload out_c" by blast+
  from ad sc np show "\<exists>rl1 w1. fetch_categories pf rl limit wc = Some (Inr ([], rl1, w1))
               \<and> script w1 = rest_c"
    by (rule fetch_categories_no_payload)
next
  assume a: "script wm = concat (map answers pre) @ out_m # rest_m
        \<and> admits pf (concat (map answers pre) @ [out_m]) rl wm
        \<and> no_payload out_m
        \<and> (\<forall>a\<in>set pre. 250 \<le> length (rows_of (snd a)))
        \<and> int (length (page_ids (map snd pre))) < max_coins"
  then have sc: "script wm = concat (map answers pre) @ out_m # rest_m"
    and ad: "admits pf (concat (map answers pre) @ [out_m]) rl wm"
    and np: "no_payload out_m"
    and full: "\<forall>a\<in>set pre. 250 \<le> length (rows_of (snd a))"
    and room: "int (length (page_ids (map snd pre))) < max_coins"
    by blast+
  from ad sc np full room
  show "\<exists>rl1 w1. fetch_coins_by_category pf category_id category_name rl max_coins wm
                 = Some (Inr (page_ids (map snd pre), rl1, w1)) \<and> script w1 = rest_m"
    by (rule fetch_coins_no_payload)
next
  assume a: "script wt = ticker_answers pages @ out_t # rest_t
        \<and> admits pf (ticker_answers pages @ [out_t]) rl wt
        \<and> no_payload out_t
        \<and> (\<forall>p\<in>set pages. \<not> raises_for_status (fst p) \<and> next_link (snd (snd p)) \<noteq> None)"
  then have sc: "script wt = ticker_answers pages @ out_t # rest_t"
    and ad: "admits pf (ticker_answers pages @ [out_t]) rl wt"
    and np: "no_payload out_t"
    and pg: "\<forall>p\<in>set pages. \<not> raises_for_status (fst p) \<and> next_link (snd (snd p)) \<noteq> None"
    by blast+
  from fetch_tickers_loop_pages [OF ad sc np pg,
      of update_request_url target_symbol "BASE_URL @ ''/exchanges/'' @ exchange_id @ ''/tickers''"
         "[(''coin_ids'', PyStr target_id), (''page'', PyInt 1)]" "[]"]
  show "\<exists>rl1 w1. fetch_tickers_for_exchange pf update_request_url exchange_id exchange_name
                 target_id target_symbol rl wt
                 = Some (Inr (kept_tickers target_symbol pages, rl1, w1))
               \<and> script w1 = rest_t"
    by (simp add: fetch_tickers_for_exchange_def)
next
  assume "1 \<le> max_requests rl \<and> (\<forall>x. fl pf x = x)"
  then show "admits pf outs rl wx"
    by (intro admits_no_negative_sleep no_negative_sleep_exact) blast+
qed

theorem safe_request_outcomes_witness:
  "admits \<lparr>fl = \<lambda>x. x, tick = \<lambda>k. 1\<rparr> [Response 200 (Some ''{}'') [(''Link'', [])]]
       (RateLimiter 1 2)
       \<lparr>now = 0, reads = 0,
        script = [Response 200 (Some ''{}'') [(''Link'', [])], NoResponse], trace = []\<rparr>
   \<and> (\<exists>rl1 w1. safe_request \<lparr>fl = \<lambda>x. x, tick = \<lambda>k. 1\<rparr> ''u'' None (RateLimiter 1 2)
          \<lparr>now = 0, reads = 0,
           script = [Response 200 (Some ''{}'') [(''Link'', [])], NoResponse], trace = []\<rparr>
        = Some (Inr ((Some ''{}'', Some [(''Link'', [])]), rl1, w1)) \<and> script w1 = [NoResponse])
   \<and> safe_request \<lparr>fl = \<lambda>x. x, tick = \<lambda>k. 1\<rparr> ''u'' None (RateLimiter 1 2)
          \<lparr>now = 0, reads = 0, script = [Response 500 (Some ''{}'') [], NoResponse], trace = []\<rparr>
        = Some (Inl (HTTPError 500))
   \<and> (\<exists>rl1 w1. safe_request \<lparr>fl = \<lambda>x. x, tick = \<lambda>k. 1\<rparr> ''u'' None (RateLimiter 1 2)
          \<lparr>now = 0, reads = 0,
           script = [Response 200 (None :: string option) [], NoResponse], trace = []\<rparr>
        = Some (Inr ((None, None), rl1, w1)) \<and> script w1 = [NoResponse])
   \<and> (\<exists>rl1 w1. fetch_categories \<lparr>fl = \<lambda>x. x, tick = \<lambda>k. 1\<rparr> (RateLimiter 1 2) 500
          \<lparr>now = 0, reads = 0, script = [NoResponse], trace = []\<rparr>
        = Some (Inr ([], rl1, w1)) \<and> script w1 = [])
   \<and> (\<exists>rl1 w1. fetch_coins_by_category \<lparr>fl = \<lambda>x. x, tick = \<lambda>k. 1\<rparr> ''ai'' ''AI''
          (RateLimiter 1 2) 1000
          \<lparr>now = 0, reads = 0,
           script = [Response 429 None [],
                     Response 200 (Some (replicate 250 \<lparr>row_id = ''btc''\<rparr>)) [],
                     NoResponse, Response 200 (Some []) []],
           trace = []\<rparr>
        = Some (Inr (replicate 250 ''btc'', rl1, w1)) \<and> script w1 = [Response 200 (Some []) []])
   \<and> (\<exists>rl1 w1. fetch_tickers_for_exchange \<lparr>fl = \<lambda>x. x, tick = \<lambda>k. 1\<rparr> (\<lambda>u. (u, []))
          ''binance'' ''Binance'' ''bitcoin'' ''USDT'' (RateLimiter 1 2)
          \<lparr>now = 0, reads = 0,
           script = [Response 200
                       (Some \<lparr>tickers = [\<lparr>coin_id = ''bitcoin'', base = ''BTC'', target = ''USDT''\<rparr>,
                                         \<lparr>coin_id = ''bitcoin'', base = ''BTC'', target = ''EUR''\<rparr>]\<rparr>)
                       [(''link'', ''<https://x/y?page=2>; rel=\"next\"'')],
                     NoResponse],
           trace = []\<rparr>
        = Some (Inr ([\<lparr>coin_id = ''bitcoin'', base = ''BTC'', target = ''USDT''\<rparr>], rl1, w1))
      \<and> script w1 = [])"
proof -
  let ?pf = "\<lparr>fl = \<lambda>x. x, tick = \<lambda>k. 1\<rparr>"
  let ?wok = "\<lparr>now = 0, reads = 0,
           script = [Response 200 (Some ''{}'') [(''Link'', [])], NoResponse], trace = []\<rparr>"
  let ?werr = "\<lparr>now = 0, reads = 0, script = [Response 500 (Some ''{}'') [], NoResponse], trace = []\<rparr>"
  let ?wnet = "\<lparr>now = 0, reads = 0,
           script = [Response 200 (None :: string option) [], NoResponse], trace = []\<rparr>"
  let ?wc = "\<lparr>now = 0, reads = 0, script = [NoResponse :: category list http_outcome], trace = []\<rparr>"
  let ?page = "Response 200 (Some (replicate 250 \<lparr>row_id = ''btc''\<rparr>)) [] :: market_row list http_outcome"
  let ?wm = "\<lparr>now = 0, reads = 0,
           script = [Response 429 None [], ?page, NoResponse, Response 200 (Some []) []],
           trace = []\<rparr>"
  let ?t1 = "\<lparr>coin_id = ''bitcoin'', base = ''BTC'', target = ''USDT''\<rparr>"
  let ?t2 = "\<lparr>coin_id = ''bitcoin'', base = ''BTC'', target = ''EUR''\<rparr>"
  let ?hs = "[(''link'', ''<https://x/y?page=2>; rel=\"next\"'')]"
  let ?wt = "\<lparr>now = 0, reads = 0,
           script = [Response 200 (Some \<lparr>tickers = [?t1, ?t2]\<rparr>) ?hs, NoResponse],
           trace = []\<rparr>"
  have m: "1 \<le> max_requests (RateLimiter 1 2)" by (simp add: RateLimiter_def)
  have nn: "no_negative_sleep ?pf" by (simp add: no_negative_sleep_def)
  note t = safe_request_outcomes [where pf = ?pf and rl = "RateLimiter 1 2"
      and url = "''u''" and params = None
      and wok = ?wok and status = 200 and body = "''{}''" and hdrs = "[(''Link'', [])]"
      and rest = "[NoResponse]"
      and werr = ?werr and code = 500 and body_e = "Some ''{}''" and hdrs_e = "[]"
      and rest_e = "[NoResponse]"
      and wnet = ?wnet and out = "Response 200 None []" and rest_n = "[NoResponse]"
      and wc = ?wc and out_c = NoResponse and rest_c = "[]" and limit = 500
      and wm = ?wm and pre = "[([(None, [])], ?page)]" and out_m = NoResponse
      and rest_m = "[Response 200 (Some []) []]"
      and max_coins = 1000 and category_id = "''ai''" and category_name = "''AI''"
      and wt = ?wt and pages = "[(200, \<lparr>tickers = [?t1, ?t2]\<rparr>, ?hs)]" and out_t = NoResponse
      and rest_t = "[]"
      and update_request_url = "\<lambda>u. (u, [])" and exchange_id = "''binance''"
      and exchange_name = "''Binance''" and target_id = "''bitcoin''" and target_symbol = "''USDT''"]
  have ok: "\<not> raises_for_status 200" by (simp add: raises_for_status_def)
  have ex: "1 \<le> max_requests (RateLimiter 1 2) \<and> (\<forall>x. fl ?pf x = x)"
    using m by simp
  note adx = safe_request_outcomes [THEN conjunct2, THEN conjunct2, THEN conjunct2,
      THEN conjunct2, THEN conjunct2, THEN conjunct2, THEN mp]
  have a1: "script ?wok = Response 200 (Some ''{}'') [(''Link'', [])] # [NoResponse]
      \<and> admits ?pf [Response 200 (Some ''{}'') [(''Link'', [])]] (RateLimiter 1 2) ?wok
      \<and> \<not> raises_for_status 200"
  proof (intro conjI)
    show "admits ?pf [Response 200 (Some ''{}'') [(''Link'', [])]] (RateLimiter 1 2) ?wok"
      using ex by (rule adx)
  qed (simp_all add: ok)
  have a2: "script ?werr = Response 500 (Some ''{}'') [] # [NoResponse]
      \<and> admits ?pf [Response 500 (Some ''{}'') []] (RateLimiter 1 2) ?werr
      \<and> raises_for_status 500 \<and> (500 :: nat) \<noteq> 429"
  proof (intro conjI)
    show "admits ?pf [Response 500 (Some ''{}'') []] (RateLimiter 1 2) ?werr"
      using ex by (rule adx)
  qed (simp_all add: raises_for_status_def)
  have a3: "script ?wnet = Response 200 None [] # [NoResponse]
      \<and> admits ?pf [Response 200 None []] (RateLimiter 1 2) ?wnet
      \<and> no_payload (Response 200 (None :: string option) [])"
  proof (intro conjI)
    show "admits ?pf [Response 200 None []] (RateLimiter 1 2) ?wnet"
      using ex by (rule adx)
  qed (simp_all add: ok)
  have a4: "script ?wc = NoResponse # [] \<and> admits ?pf [NoResponse] (RateLimiter 1 2) ?wc
      \<and> no_payload (NoResponse :: category list http_outcome)"
  proof (intro conjI)
    show "admits ?pf [NoResponse] (RateLimiter 1 2) ?wc"
      using ex by (rule adx)
  qed simp_all
  have a5: "script ?wm = concat (map answers [([(None, [])], ?page)]) @ NoResponse # [Response 200 (Some []) []]
      \<and> admits ?pf (concat (map answers [([(None, [])], ?page)]) @ [NoResponse]) (RateLimiter 1 2) ?wm
      \<and> no_payload (NoResponse :: market_row list http_outcome)
      \<and> (\<forall>a\<in>set [([(None, [])], ?page)]. 250 \<le> length (rows_of (snd a)))
      \<and> int (length (page_ids (map snd [([(None :: market_row list option, [] :: headers)], ?page)]))) < 1000"
  proof (intro conjI)
    show "admits ?pf (concat (map answers [([(None, [])], ?page)]) @ [NoResponse])
        (RateLimiter 1 2) ?wm"
      using ex by (rule adx)
  qed (simp_all add: ok throttled_def)
  have nx: "next_link ?hs \<noteq> None" by code_simp
  have a6: "script ?wt = ticker_answers [(200, \<lparr>tickers = [?t1, ?t2]\<rparr>, ?hs)] @ NoResponse # []
      \<and> admits ?pf (ticker_answers [(200, \<lparr>tickers = [?t1, ?t2]\<rparr>, ?hs)] @ [NoResponse])
            (RateLimiter 1 2) ?wt
      \<and> no_payload (NoResponse :: ticker_page http_outcome)
      \<and> (\<forall>p\<in>set [(200, \<lparr>tickers = [?t1, ?t2]\<rparr>, ?hs)].
            \<not> raises_for_status (fst p) \<and> next_link (snd (snd p)) \<noteq> None)"
  proof (intro conjI)
    show "admits ?pf (ticker_answers [(200, \<lparr>tickers = [?t1, ?t2]\<rparr>, ?hs)] @ [NoResponse])
            (RateLimiter 1 2) ?wt"
      using ex by (rule adx)
  qed (simp_all add: ok nx ticker_answers_def)
  have ids: "page_ids (map snd [([(None :: market_row list option, [] :: headers)], ?page)])
      = replicate 250 ''btc''"
    using ok by simp
  have kept: "kept_tickers ''USDT'' [(200, \<lparr>tickers = [?t1, ?t2]\<rparr>, ?hs)] = [?t1]"
    by (simp add: kept_tickers_def)
  note r1 = t [THEN conjunct1, THEN mp, OF a1]
  note r2 = t [THEN conjunct2, THEN conjunct1, THEN mp, OF a2]
  note r3 = t [THEN conjunct2, THEN conjunct2, THEN conjunct1, THEN mp, OF a3]
  note r4 = t [THEN conjunct2, THEN conjunct2, THEN conjunct2, THEN conjunct1, THEN mp, OF a4]
  note r5 = t [THEN conjunct2, THEN conjunct2, THEN conjunct2, THEN conjunct2, THEN conjunct1,
      THEN mp, OF a5, unfolded ids]
  note r6 = t [THEN conjunct2, THEN conjunct2, THEN conjunct2, THEN conjunct2, THEN conjunct2,
      THEN conjunct1, THEN mp, OF a6, unfolded kept]
  from a1 [THEN conjunct2, THEN conjunct1] r1 r2 r3 r4 r5 r6
  show ?thesis
    by (intro conjI)
qed

text \<open>
  Where the claim as it is worded does not hold. A response with status 300, which is
  neither a 2xx status nor 429, is not raised as an HTTP error: its JSON body and its
  headers are returned. A response with status 200 whose body is not JSON is not returned
  as a pair of body and headers: the result is \<^verbatim>\<open>(None, None)\<close>.
\<close>

theorem safe_request_outcomes_counterexample:
  "safe_request \<lparr>fl = \<lambda>x. x, tick = \<lambda>k. 1\<rparr> ''u'' None (RateLimiter 1 2)
          \<lparr>now = 0, reads = 0, script = [Response 300 (Some ''{}'') [(''Link'', [])]], trace = []\<rparr>
     = Some (Inr ((Some ''{}'', Some [(''Link'', [])]),
                  \<lparr>requests = [2], max_requests = 1, period = 2\<rparr>,
                  \<lparr>now = 2, reads = 2, script = [], trace = [Got ''u'' None]\<rparr>))
   \<and> safe_request \<lparr>fl = \<lambda>x. x, tick = \<lambda>k. 1\<rparr> ''u'' None (RateLimiter 1 2)
          \<lparr>now = 0, reads = 0,
           script = [Response 200 (None :: string option) [(''Content-Type'', ''text/html'')]],
           trace = []\<rparr>
     = Some (Inr ((None, None),
                  \<lparr>requests = [2], max_requests = 1, period = 2\<rparr>,
                  \<lparr>now = 2, reads = 2, script = [], trace = [Got ''u'' None]\<rparr>))"
  by (simp add: safe_request.simps wait_def monotonic_def Let_def RateLimiter_def
        raises_for_status_def)



section \<open>The Link header\<close>

lemma parse_link_header_fold:
  "parse_link_header h = foldl link_step [] (split_on CHR '','' h)"
  by (simp add: parse_link_header_def link_step_def [abs_def])

lemma set_odict_set_subset: "set (odict_set k v d) \<subseteq> insert (k, v) (set d)"
  by (induction d) (auto split: if_splits)

lemma link_step_match:
  "rx_search link_pattern link = Some [url, rel] \<Longrightarrow> link_step links link = odict_set rel url links"
  by (simp add: link_step_def)

lemma link_step_cases:
  "link_step links link = links
   \<or> (\<exists>url rel. rx_search link_pattern link = Some [url, rel]
         \<and> link_step links link = odict_set rel url links)"
  by (auto simp: link_step_def split: option.splits list.splits)

lemma link_step_no_match:
  "rx_search link_pattern link = None \<Longrightarrow> link_step links link = links"
  by (simp add: link_step_def)

lemma fold_links_sound:
  "(rel, url) \<in> set (foldl link_step acc pieces) \<Longrightarrow>
   (rel, url) \<in> set acc
   \<or> (\<exists>link\<in>set pieces. rx_search link_pattern link = Some [url, rel])"
proof (induction pieces arbitrary: acc)
  case Nil
  then show ?case by simp
next
  case (Cons link pieces)
  from Cons.IH [of "link_step acc link"] Cons.prems
  consider "(rel, url) \<in> set (link_step acc link)"
    | "\<exists>l\<in>set pieces. rx_search link_pattern l = Some [url, rel]"
    by auto
  then show ?case
  proof cases
    case 1
    from link_step_cases [of acc link] show ?thesis
    proof
      assume "link_step acc link = acc"
      with 1 show ?thesis by simp
    next
      assume "\<exists>u r. rx_search link_pattern link = Some [u, r]
         \<and> link_step acc link = odict_set r u acc"
      then obtain u r where m: "rx_search link_pattern link = Some [u, r]"
        and s: "link_step acc link = odict_set r u acc" by blast
      from 1 s set_odict_set_subset [of r u acc] have "(rel, url) = (r, u) \<or> (rel, url) \<in> set acc"
        by auto
      with m show ?thesis by auto
    qed
  next
    case 2
    then show ?thesis by auto
  qed
qed

lemma fold_links_keys_mono:
  "fst ` set acc \<subseteq> fst ` set (foldl link_step acc pieces)"
proof (induction pieces arbitrary: acc)
  case Nil
  show ?case by simp
next
  case (Cons link pieces)
  have "fst ` set acc \<subseteq> fst ` set (link_step acc link)"
  proof -
    from link_step_cases [of acc link] show ?thesis
    proof
      assume "link_step acc link = acc"
      then show ?thesis by simp
    next
      assume "\<exists>u r. rx_search link_pattern link = Some [u, r]
         \<and> link_step acc link = odict_set r u acc"
      then obtain u r where "link_step acc link = odict_set r u acc" by blast
      then have "fst ` set (link_step acc link) = insert r (fst ` set acc)"
        by (simp only: fst_set_odict_set)
      then show ?thesis by blast
    qed
  qed
  with Cons.IH [of "link_step acc link"] show ?case by auto
qed

lemma fold_links_complete:
  "link \<in> set pieces \<Longrightarrow> rx_search link_pattern link = Some [url, rel] \<Longrightarrow>
   rel \<in> fst ` set (foldl link_step acc pieces)"
proof (induction pieces arbitrary: acc)
  case Nil
  then show ?case by simp
next
  case (Cons l pieces)
  show ?case
  proof (cases "l = link")
    case True
    have "rel \<in> fst ` set (link_step acc link)"
      by (simp add: link_step_match [OF Cons.prems(2)] fst_set_odict_set)
    with fold_links_keys_mono [of "link_step acc link" pieces] True show ?thesis by auto
  next
    case False
    with Cons show ?thesis by auto
  qed
qed

lemma split_on_nonempty: "split_on sep s \<noteq> []"
  by (induction s) (auto split: list.splits)

lemma split_on_no_sep: "sep \<notin> set s \<Longrightarrow> split_on sep s = [s]"
  by (induction s) auto

lemma split_on_append:
  "split_on sep (a @ sep # b) = split_on sep a @ split_on sep b"
proof (induction a)
  case Nil
  show ?case by (simp add: split_on_no_sep)
next
  case (Cons c a)
  show ?case
  proof (cases "c = sep")
    case True
    with Cons show ?thesis by simp
  next
    case False
    obtain p ps where "split_on sep a = p # ps"
      using split_on_nonempty [of sep a] by (cases "split_on sep a") auto
    with False Cons show ?thesis by simp
  qed
qed

lemma parse_skips_piece:
  assumes "rx_search link_pattern junk = None" and "CHR '','' \<notin> set junk"
  shows "parse_link_header (h1 @ CHR '','' # junk @ CHR '','' # h2)
       = parse_link_header (h1 @ CHR '','' # h2)"
proof -
  have "split_on CHR '','' (h1 @ CHR '','' # junk @ CHR '','' # h2)
      = split_on CHR '','' h1 @ [junk] @ split_on CHR '','' h2"
    using assms(2) by (simp add: split_on_append split_on_no_sep)
  then show ?thesis
    by (simp add: parse_link_header_fold split_on_append link_step_no_match [OF assms(1)])
qed

lemma rx_match_Lit [simp]: "rx_match (Lit c # items) (c # s) = rx_match items s"
  by simp

lemma takeWhile_run:
  assumes "\<forall>c\<in>set run. cls c" and "rest = [] \<or> \<not> cls (hd rest)"
  shows "takeWhile cls (run @ rest) = run"
proof -
  have "takeWhile cls rest = []" using assms(2) by (cases rest) auto
  with assms(1) show ?thesis by (simp add: takeWhile_append2)
qed

lemma rx_match_Group_Plus:
  assumes "run \<noteq> []" and "\<forall>c\<in>set run. cls c" and "rest = [] \<or> \<not> cls (hd rest)"
    and "rx_match items rest = Some groups"
  shows "rx_match (Group_Plus cls # items) (run @ rest) = Some (run # groups)"
proof -
  have tw: "takeWhile cls (run @ rest) = run" using assms(2,3) by (rule takeWhile_run)
  from assms(1) obtain n where n: "length run = Suc n" by (cases run) auto
  have "rev [1..<Suc (length run)] = length run # rev [1..<length run]"
    using n by simp
  then show ?thesis using assms(4) by (simp add: tw del: upt_Suc)
qed

lemma rx_match_Star:
  assumes "\<forall>c\<in>set run. cls c" and "rest = [] \<or> \<not> cls (hd rest)"
    and "rx_match items rest = Some groups"
  shows "rx_match (Star cls # items) (run @ rest) = Some groups"
proof -
  have tw: "takeWhile cls (run @ rest) = run" using assms(1,2) by (rule takeWhile_run)
  show ?thesis using assms(3) by (simp add: tw)
qed

lemma rx_search_skip:
  assumes "\<forall>c\<in>set pre. c \<noteq> a" and "s \<noteq> []"
  shows "rx_search (Lit a # items) (pre @ s) = rx_search (Lit a # items) s"
  using assms by (induction pre) auto

lemma link_pattern_entry:
  assumes "CHR ''<'' \<notin> set pre" and "url \<noteq> []" and "CHR ''>'' \<notin> set url"
    and "\<forall>c\<in>set sp. is_space c" and "rel \<noteq> []" and "CHR 0x22 \<notin> set rel"
  shows "rx_search link_pattern
           (pre @ ''<'' @ url @ ''>;'' @ sp @ ''rel='' @ [CHR 0x22] @ rel @ [CHR 0x22] @ post)
         = Some [url, rel]"
proof -
  let ?q = "CHR 0x22"
  have r: "\<not> is_space CHR ''r''" by (simp add: is_space_def)
  have 1: "rx_match [Group_Plus (\<lambda>c. c \<noteq> ?q), Lit ?q] (rel @ ?q # post) = Some [rel]"
    using assms(5,6) by (intro rx_match_Group_Plus) auto
  have 2: "rx_match [Lit CHR ''r'', Lit CHR ''e'', Lit CHR ''l'', Lit CHR ''='', Lit ?q,
                Group_Plus (\<lambda>c. c \<noteq> ?q), Lit ?q] (''rel='' @ ?q # rel @ ?q # post) = Some [rel]"
    using 1 by simp
  have 3: "rx_match [Star is_space, Lit CHR ''r'', Lit CHR ''e'', Lit CHR ''l'', Lit CHR ''='', Lit ?q,
                Group_Plus (\<lambda>c. c \<noteq> ?q), Lit ?q] (sp @ ''rel='' @ ?q # rel @ ?q # post) = Some [rel]"
    using assms(4) r 2 by (intro rx_match_Star) auto
  have 4: "rx_match [Lit CHR ''>'', Lit CHR '';'', Star is_space, Lit CHR ''r'', Lit CHR ''e'',
                Lit CHR ''l'', Lit CHR ''='', Lit ?q, Group_Plus (\<lambda>c. c \<noteq> ?q), Lit ?q]
             (''>;'' @ sp @ ''rel='' @ ?q # rel @ ?q # post) = Some [rel]"
    using 3 by simp
  have 5: "rx_match (tl link_pattern) (url @ ''>;'' @ sp @ ''rel='' @ ?q # rel @ ?q # post)
            = Some [url, rel]"
    unfolding link_pattern_def list.sel
    using assms(2,3) 4 by (intro rx_match_Group_Plus) auto
  have 6: "rx_match link_pattern (CHR ''<'' # url @ ''>;'' @ sp @ ''rel='' @ ?q # rel @ ?q # post)
            = Some [url, rel]"
    using 5 by (simp add: link_pattern_def)
  have "rx_search link_pattern (CHR ''<'' # url @ ''>;'' @ sp @ ''rel='' @ ?q # rel @ ?q # post)
            = Some [url, rel]"
    using 6 by simp
  moreover have "rx_search link_pattern
           (pre @ CHR ''<'' # url @ ''>;'' @ sp @ ''rel='' @ ?q # rel @ ?q # post)
     = rx_search link_pattern (CHR ''<'' # url @ ''>;'' @ sp @ ''rel='' @ ?q # rel @ ?q # post)"
    unfolding link_pattern_def using assms(1) by (intro rx_search_skip) auto
  ultimately show ?thesis by simp
qed

lemma first_some_map:
  "first_some (map f ks) = Some y \<Longrightarrow> \<exists>k\<in>set ks. f k = Some y"
proof (induction ks)
  case Nil
  then show ?case by simp
next
  case (Cons k ks)
  then show ?case by (cases "f k") auto
qed

lemma rx_match_groups:
  "rx_match items s = Some groups \<Longrightarrow> length groups = length (filter is_group items)"
proof (induction items s arbitrary: groups rule: rx_match.induct)
  case (1 s)
  then show ?case by simp
next
  case (2 c items s)
  then show ?case by (cases s) (auto split: if_splits)
next
  case (3 cls items s)
  let ?f = "\<lambda>k. map_option (\<lambda>groups. take k s # groups) (rx_match items (drop k s))"
  let ?ks = "rev [1..<Suc (length (takeWhile cls s))]"
  from "3.prems" have "first_some (map ?f ?ks) = Some groups"
    by (simp only: rx_match.simps)
  from first_some_map [OF this] obtain k where
    k: "k \<in> set ?ks" and f: "?f k = Some groups"
    by blast
  from f obtain g where g: "rx_match items (drop k s) = Some g" and gs: "groups = take k s # g"
    by (cases "rx_match items (drop k s)") auto
  from "3.IH" [OF k g] gs show ?case by simp
next
  case (4 cls items s)
  let ?f = "\<lambda>k. rx_match items (drop k s)"
  let ?ks = "rev [0..<Suc (length (takeWhile cls s))]"
  from "4.prems" have "first_some (map ?f ?ks) = Some groups"
    by (simp only: rx_match.simps)
  from first_some_map [OF this] obtain k where
    k: "k \<in> set ?ks" and g: "?f k = Some groups"
    by blast
  from "4.IH" [OF k g] show ?case by simp
qed

lemma rx_search_groups:
  "rx_search items s = Some groups \<Longrightarrow> length groups = length (filter is_group items)"
proof (induction s)
  case Nil
  then show ?case by (simp add: rx_match_groups)
next
  case (Cons c s)
  then show ?case by (auto simp: rx_match_groups split: option.splits)
qed

lemma link_pattern_two_groups:
  "rx_search link_pattern link = None
   \<or> (\<exists>url rel. rx_search link_pattern link = Some [url, rel])"
proof (cases "rx_search link_pattern link")
  case None
  then show ?thesis by simp
next
  case (Some groups)
  from rx_search_groups [OF Some] have "length groups = 2"
    by (simp add: link_pattern_def)
  then obtain url rel where "groups = [url, rel]"
    by (cases groups; cases "tl groups") auto
  with Some show ?thesis by simp
qed

text \<open>
  Claim C5. \<^verbatim>\<open>parse_link_header\<close> has a value on every string, and no step of it
  can raise. On the header of the example it returns \<open>next\<close> and \<open>last\<close> with
  their URLs. In general the header is split at the commas; a piece either has no match of
  the pattern or has one with a URL and a relation name; every entry of the result comes
  from a piece with a match, every piece with a match has its relation name in the
  result, and a piece with no match changes nothing. A piece of the form
  \<^verbatim>\<open><URL>; rel="REL"\<close> (a non-empty URL without \<^verbatim>\<open>>\<close>, any whitespace after the
  semicolon, a non-empty name without a double quote), after a prefix without \<^verbatim>\<open><\<close>,
  matches with that URL and that name.
\<close>

theorem parse_link_header_spec:
  "parse_link_header ''<https://x/y?page=2>; rel=\"next\", <https://x/y?page=9>; rel=\"last\"''
     = [(''next'', ''https://x/y?page=2''), (''last'', ''https://x/y?page=9'')]
   \<and> (rx_search link_pattern piece = None
        \<or> (\<exists>u r. rx_search link_pattern piece = Some [u, r]))
   \<and> ((rel, url) \<in> set (parse_link_header h) \<longrightarrow>
        (\<exists>link\<in>set (split_on CHR '','' h). rx_search link_pattern link = Some [url, rel]))
   \<and> (link \<in> set (split_on CHR '','' h) \<and> rx_search link_pattern link = Some [url, rel] \<longrightarrow>
        rel \<in> fst ` set (parse_link_header h))
   \<and> (rx_search link_pattern junk = None \<and> CHR '','' \<notin> set junk \<longrightarrow>
        parse_link_header (h1 @ CHR '','' # junk @ CHR '','' # h2)
          = parse_link_header (h1 @ CHR '','' # h2))
   \<and> (CHR ''<'' \<notin> set pre \<and> url2 \<noteq> [] \<and> CHR ''>'' \<notin> set url2
        \<and> (\<forall>c\<in>set sp. is_space c) \<and> rel2 \<noteq> [] \<and> CHR 0x22 \<notin> set rel2 \<longrightarrow>
        rx_search link_pattern
           (pre @ ''<'' @ url2 @ ''>;'' @ sp @ ''rel='' @ [CHR 0x22] @ rel2 @ [CHR 0x22] @ post)
         = Some [url2, rel2])"
proof (intro conjI impI)
  show "parse_link_header ''<https://x/y?page=2>; rel=\"next\", <https://x/y?page=9>; rel=\"last\"''
     = [(''next'', ''https://x/y?page=2''), (''last'', ''https://x/y?page=9'')]"
    by code_simp
next
  show "rx_search link_pattern piece = None
        \<or> (\<exists>u r. rx_search link_pattern piece = Some [u, r])"
    by (rule link_pattern_two_groups)
next
  assume "(rel, url) \<in> set (parse_link_header h)"
  with fold_links_sound [of rel url "[]" "split_on CHR '','' h"]
  show "\<exists>link\<in>set (split_on CHR '','' h). rx_search link_pattern link = Some [url, rel]"
    by (simp add: parse_link_header_fold)
next
  assume "link \<in> set (split_on CHR '','' h) \<and> rx_search link_pattern link = Some [url, rel]"
  then show "rel \<in> fst ` set (parse_link_header h)"
    unfolding parse_link_header_fold by (intro fold_links_complete [of link _ url]) simp_all
next
  assume "rx_search link_pattern junk = None \<and> CHR '','' \<notin> set junk"
  then show "parse_link_header (h1 @ CHR '','' # junk @ CHR '','' # h2)
          = parse_link_header (h1 @ CHR '','' # h2)"
    by (intro parse_skips_piece) simp_all
next
  assume "CHR ''<'' \<notin> set pre \<and> url2 \<noteq> [] \<and> CHR ''>'' \<notin> set url2
        \<and> (\<forall>c\<in>set sp. is_space c) \<and> rel2 \<noteq> [] \<and> CHR 0x22 \<notin> set rel2"
  then show "rx_search link_pattern
           (pre @ ''<'' @ url2 @ ''>;'' @ sp @ ''rel='' @ [CHR 0x22] @ rel2 @ [CHR 0x22] @ post)
         = Some [url2, rel2]"
    by (intro link_pattern_entry) simp_all
qed

theorem parse_link_header_spec_witness:
  "(''next'', ''https://x/y?page=2'') \<in> set (parse_link_header ''<https://x/y?page=2>; rel=\"next\", junk'')
   \<and> (\<exists>link\<in>set (split_on CHR '','' ''<https://x/y?page=2>; rel=\"next\", junk'').
         rx_search link_pattern link = Some [''https://x/y?page=2'', ''next''])
   \<and> ''next'' \<in> fst ` set (parse_link_header ''<https://x/y?page=2>; rel=\"next\", junk'')
   \<and> rx_search link_pattern '' junk'' = None
   \<and> parse_link_header (''<a>; rel=\"first\"'' @ CHR '','' # '' junk'' @ CHR '','' # '' <b>; rel=\"next\"'')
       = parse_link_header (''<a>; rel=\"first\"'' @ CHR '','' # '' <b>; rel=\"next\"'')
   \<and> rx_search link_pattern
           ('' '' @ ''<'' @ ''https://x/y?page=9'' @ ''>;'' @ '' '' @ ''rel='' @ [CHR 0x22] @ ''last''
              @ [CHR 0x22] @ [])
         = Some [''https://x/y?page=9'', ''last'']"
proof -
  let ?h = "''<https://x/y?page=2>; rel=\"next\", junk''"
  let ?link = "''<https://x/y?page=2>; rel=\"next\"''"
  have p: "parse_link_header ?h = [(''next'', ''https://x/y?page=2'')]" by code_simp
  have s: "split_on CHR '','' ?h = [?link, '' junk'']" by code_simp
  have m: "rx_search link_pattern ?link = Some [''https://x/y?page=2'', ''next'']" by code_simp
  have j: "rx_search link_pattern '' junk'' = None" by code_simp
  have sp: "\<forall>c\<in>set '' ''. is_space c" by (simp add: is_space_def)
  from parse_link_header_spec [where h = ?h and rel = "''next''" and url = "''https://x/y?page=2''"
      and link = ?link and junk = "'' junk''" and ?h1.0 = "''<a>; rel=\"first\"''"
      and ?h2.0 = "'' <b>; rel=\"next\"''" and pre = "'' ''" and ?url2.0 = "''https://x/y?page=9''"
      and sp = "'' ''" and ?rel2.0 = "''last''" and post = "[]"]
  show ?thesis using p s m j sp by simp
qed

section \<open>The watchlist writer\<close>

lemma write_tickers_fold:
  "foldl (\<lambda>f tk. f @ tk @ ''\<newline>'') buf tks = buf @ concat (map (\<lambda>tk. tk @ ''\<newline>'') tks)"
  by (induction tks arbitrary: buf) simp_all

lemma write_category_render:
  "write_category list_repr is_index buf entry = buf @ render_category list_repr is_index entry"
  by (cases entry) (simp add: write_category_def render_category_def write_tickers_fold)

lemma write_categories_fold:
  "foldl (write_category list_repr is_index) buf entries
     = buf @ concat (map (render_category list_repr is_index) entries)"
  by (induction entries arbitrary: buf) (simp_all add: write_category_render)

lemma saved_content:
  "files (save_to_tradingview_watchlist list_repr filename entries is_index fs) filename
     = Some (concat (map (render_category list_repr is_index) entries))"
  by (simp add: save_to_tradingview_watchlist_def Let_def write_categories_fold)

lemma saved_others:
  "p \<noteq> filename \<Longrightarrow>
   files (save_to_tradingview_watchlist list_repr filename entries is_index fs) p = files fs p"
  by (simp add: save_to_tradingview_watchlist_def makedirs_def Let_def)

lemma read_lines_feed: "read_lines cur (CHR ''\<newline>'' # rest) = cur # read_lines [] rest"
  by (cases rest) simp_all

lemma read_lines_char:
  "c \<noteq> CHR ''\<newline>'' \<Longrightarrow> c \<noteq> CHR 0x0D \<Longrightarrow> rest \<noteq> [] \<Longrightarrow>
   read_lines cur (c # rest) = read_lines (cur @ [c]) rest"
  by (cases rest) simp_all

lemma read_lines_line:
  "no_line_break l \<Longrightarrow>
   read_lines cur (l @ CHR ''\<newline>'' # rest) = (cur @ l) # read_lines [] rest"
proof (induction l arbitrary: cur)
  case Nil
  show ?case by (simp add: read_lines_feed)
next
  case (Cons c l)
  then have "c \<noteq> CHR ''\<newline>''" "c \<noteq> CHR 0x0D" "no_line_break l"
    by (auto simp: no_line_break_def)
  with Cons.IH [of "cur @ [c]"] show ?case
    by (simp add: read_lines_char)
qed

lemma read_lines_terminated:
  "\<forall>l\<in>set ls. no_line_break l \<Longrightarrow>
   read_lines [] (concat (map (\<lambda>l. l @ ''\<newline>'') ls) @ rest) = ls @ read_lines [] rest"
proof (induction ls)
  case Nil
  show ?case by simp
next
  case (Cons l ls)
  then have "no_line_break l" by simp
  from read_lines_line [OF this, of "[]"] Cons show ?case by simp
qed

lemma render_index_lines:
  "render_category list_repr True (n, IndexString s)
     = concat (map (\<lambda>l. l @ ''\<newline>'') [''###'' @ n, s, []])"
  by (simp add: render_category_def)

lemma render_ticker_lines:
  "render_category list_repr False (n, TickerList ts)
     = concat (map (\<lambda>l. l @ ''\<newline>'') ((''###'' @ n) # ts))"
  by (simp add: render_category_def)

lemma concat_lines_index:
  "concat (map (render_category list_repr True) (map (\<lambda>(n, s). (n, IndexString s)) idx))
     = concat (map (\<lambda>l. l @ ''\<newline>'') (concat (map (\<lambda>(n, s). [''###'' @ n, s, []]) idx)))"
  by (induction idx) (auto simp: render_index_lines)

lemma concat_lines_tickers:
  "concat (map (render_category list_repr False) (map (\<lambda>(n, ts). (n, TickerList ts)) tks))
     = concat (map (\<lambda>l. l @ ''\<newline>'') (concat (map (\<lambda>(n, ts). (''###'' @ n) # ts) tks)))"
  by (induction tks) (auto simp: render_ticker_lines)

text \<open>
  Claim C8, as the code has it. \<^verbatim>\<open>save_to_tradingview_watchlist\<close> leaves in the
  target file, whatever the file held before, the categories in the order of the
  dictionary: for each the characters \<open>###\<close>, the name and a line feed, then with
  \<^verbatim>\<open>is_index\<close> the index string and two line feeds, and otherwise every ticker
  followed by a line feed; no other file changes. Reading the file back line by line
  gives the header, the index string and an empty line of every category, or the header
  and the tickers of every category, in this order, when no name, index string or ticker
  has a line feed or a carriage return in it.
\<close>

theorem save_to_tradingview_watchlist_spec:
  "files (save_to_tradingview_watchlist list_repr filename entries is_index fs) filename
     = Some (concat (map (\<lambda>(category_name, data).
          ''###'' @ category_name @ ''\<newline>''
            @ (if is_index then py_format list_repr data @ ''\<newline>\<newline>''
               else concat (map (\<lambda>tk. tk @ ''\<newline>'') (py_iter data)))) entries))
   \<and> (p \<noteq> filename \<longrightarrow>
        files (save_to_tradingview_watchlist list_repr filename entries is_index fs) p = files fs p)
   \<and> ((\<forall>(n, s)\<in>set idx. no_line_break n \<and> no_line_break s) \<longrightarrow>
        readlines (save_to_tradingview_watchlist list_repr filename
                     (map (\<lambda>(n, s). (n, IndexString s)) idx) True fs) filename
          = Some (concat (map (\<lambda>(n, s). [''###'' @ n, s, '''']) idx)))
   \<and> ((\<forall>(n, ts)\<in>set tks. no_line_break n \<and> (\<forall>t\<in>set ts. no_line_break t)) \<longrightarrow>
        readlines (save_to_tradingview_watchlist list_repr filename
                     (map (\<lambda>(n, ts). (n, TickerList ts)) tks) False fs) filename
          = Some (concat (map (\<lambda>(n, ts). (''###'' @ n) # ts) tks)))"
proof (intro conjI impI)
  have "render_category list_repr is_index = (\<lambda>(category_name, data).
          ''###'' @ category_name @ ''\<newline>''
            @ (if is_index then py_format list_repr data @ ''\<newline>\<newline>''
               else concat (map (\<lambda>tk. tk @ ''\<newline>'') (py_iter data))))"
    by (rule ext) (simp add: render_category_def)
  then show "files (save_to_tradingview_watchlist list_repr filename entries is_index fs) filename
     = Some (concat (map (\<lambda>(category_name, data).
          ''###'' @ category_name @ ''\<newline>''
            @ (if is_index then py_format list_repr data @ ''\<newline>\<newline>''
               else concat (map (\<lambda>tk. tk @ ''\<newline>'') (py_iter data)))) entries))"
    using saved_content [of list_repr filename entries is_index fs] by simp
next
  assume "p \<noteq> filename"
  then show "files (save_to_tradingview_watchlist list_repr filename entries is_index fs) p = files fs p"
    by (rule saved_others)
next
  assume a: "\<forall>(n, s)\<in>set idx. no_line_break n \<and> no_line_break s"
  let ?ls = "concat (map (\<lambda>(n, s). [''###'' @ n, s, []]) idx)"
  have "\<forall>l\<in>set ?ls. no_line_break l"
    using a by (fastforce simp: no_line_break_def)
  from read_lines_terminated [OF this, of "[]"]
  show "readlines (save_to_tradingview_watchlist list_repr filename
                     (map (\<lambda>(n, s). (n, IndexString s)) idx) True fs) filename
          = Some (concat (map (\<lambda>(n, s). [''###'' @ n, s, '''']) idx))"
    by (simp add: readlines_def saved_content concat_lines_index del: map_map)
next
  assume a: "\<forall>(n, ts)\<in>set tks. no_line_break n \<and> (\<forall>t\<in>set ts. no_line_break t)"
  let ?ls = "concat (map (\<lambda>(n, ts). (''###'' @ n) # ts) tks)"
  have "\<forall>l\<in>set ?ls. no_line_break l"
    using a by (fastforce simp: no_line_break_def)
  from read_lines_terminated [OF this, of "[]"]
  show "readlines (save_to_tradingview_watchlist list_repr filename
                     (map (\<lambda>(n, ts). (n, TickerList ts)) tks) False fs) filename
          = Some (concat (map (\<lambda>(n, ts). (''###'' @ n) # ts) tks))"
    by (simp add: readlines_def saved_content concat_lines_tickers del: map_map)
qed

theorem save_to_tradingview_watchlist_witness:
  "files (save_to_tradingview_watchlist (\<lambda>ts. []) ''Watchlists/a.txt''
            [(''AI'', TickerList [''BINANCE:FETUSDT'', ''BINANCE:RNDRUSDT'']), (''Empty'', TickerList [])]
            False \<lparr>files = [''Watchlists/a.txt'' \<mapsto> ''old content''], dirs = {}\<rparr>) ''Watchlists/a.txt''
     = Some ''###AI\<newline>BINANCE:FETUSDT\<newline>BINANCE:RNDRUSDT\<newline>###Empty\<newline>''
   \<and> files (save_to_tradingview_watchlist (\<lambda>ts. []) ''Watchlists/a.txt''
            [(''AI'', TickerList [''BINANCE:FETUSDT'', ''BINANCE:RNDRUSDT'']), (''Empty'', TickerList [])]
            False \<lparr>files = [''Watchlists/a.txt'' \<mapsto> ''old content''], dirs = {}\<rparr>) ''b.txt''
     = None
   \<and> readlines (save_to_tradingview_watchlist (\<lambda>ts. []) ''Watchlists/a.txt''
            (map (\<lambda>(n, s). (n, IndexString s)) [(''AI'', ''(A*B)^(1/2)''), (''Empty'', ''()^(1/0)'')])
            True \<lparr>files = [''Watchlists/a.txt'' \<mapsto> ''old content''], dirs = {}\<rparr>) ''Watchlists/a.txt''
     = Some [''###AI'', ''(A*B)^(1/2)'', '''', ''###Empty'', ''()^(1/0)'', '''']
   \<and> readlines (save_to_tradingview_watchlist (\<lambda>ts. []) ''Watchlists/a.txt''
            (map (\<lambda>(n, ts). (n, TickerList ts)) [(''AI'', [''A'', ''B'']), (''Empty'', [])])
            False \<lparr>files = [''Watchlists/a.txt'' \<mapsto> ''old content''], dirs = {}\<rparr>) ''Watchlists/a.txt''
     = Some [''###AI'', ''A'', ''B'', ''###Empty'']"
proof -
  from save_to_tradingview_watchlist_spec [where list_repr = "\<lambda>ts. []"
      and filename = "''Watchlists/a.txt''"
      and entries = "[(''AI'', TickerList [''BINANCE:FETUSDT'', ''BINANCE:RNDRUSDT'']), (''Empty'', TickerList [])]"
      and is_index = False
      and fs = "\<lparr>files = [''Watchlists/a.txt'' \<mapsto> ''old content''], dirs = {}\<rparr>"
      and p = "''b.txt''"
      and idx = "[(''AI'', ''(A*B)^(1/2)''), (''Empty'', ''()^(1/0)'')]"
      and tks = "[(''AI'', [''A'', ''B'']), (''Empty'', [])]"]
  show ?thesis by (simp add: no_line_break_def)
qed

text \<open>
  Where the round trip of the claim, taken for every mapping, does not hold. The header
  of a category whose name has a line feed in it is read back as two lines, and a ticker
  with a carriage return in it is read back as two lines: the lines read are not the
  header and the tickers that were written.
\<close>

theorem save_to_tradingview_watchlist_counterexample:
  "readlines (save_to_tradingview_watchlist (\<lambda>ts. []) ''a.txt''
            [(''A\<newline>B'', TickerList [''T''])] False \<lparr>files = Map.empty, dirs = {}\<rparr>) ''a.txt''
     = Some [''###A'', ''B'', ''T'']
   \<and> [''###A'', ''B'', ''T''] \<noteq> [''###A\<newline>B'', ''T'']
   \<and> readlines (save_to_tradingview_watchlist (\<lambda>ts. []) ''a.txt''
            [(''A'', TickerList [[CHR ''T'', CHR 0x0D, CHR ''U'']])] False
            \<lparr>files = Map.empty, dirs = {}\<rparr>) ''a.txt''
     = Some [''###A'', ''T'', ''U'']"
  by (simp add: readlines_def save_to_tradingview_watchlist_def write_category_def Let_def)

end
